theory Spec2Isabelle
  imports Complex_Main "HOL-Library.Word" "HOL-Library.Multiset" "HOL-Library.Log_Nat"
begin

unbundle bit_operations_syntax

section \<open>Permutation core: Keccak-256 (core/keccak.ts)\<close>

text \<open>
  The source computes on JavaScript \<open>bigint\<close> values, which are unbounded integers:
  a lane is an \<open>int\<close>, \<open><<\<close> is \<open>push_bit\<close>, \<open>>>\<close> is \<open>drop_bit\<close> (both
  arithmetic on \<open>int\<close>, as on \<open>bigint\<close>), \<open>~\<close> is \<open>NOT\<close> (negative for a
  non-negative operand) and the only truncation to 64 bits is the mask written in
  \<open>rotl64\<close>.  The permutation state is the 25-element array \<open>state\<close>; the module
  creates it itself and indexes it with constants below 25 only.
\<close>

definition RC :: "int list" where
  "RC = [
    0x0000000000000001, 0x0000000000008082, 0x800000000000808a,
    0x8000000080008000, 0x000000000000808b, 0x0000000080000001,
    0x8000000080008081, 0x8000000000008009, 0x000000000000008a,
    0x0000000000000088, 0x0000000080008009, 0x000000008000000a,
    0x000000008000808b, 0x800000000000008b, 0x8000000000008089,
    0x8000000000008003, 0x8000000000008002, 0x8000000000000080,
    0x000000000000800a, 0x800000008000000a, 0x8000000080008081,
    0x8000000000008080, 0x0000000080000001, 0x8000000080008008]"

definition ROTC :: "nat list" where
  "ROTC = [1, 3, 6, 10, 15, 21, 28, 36, 45, 55, 2, 14,
           27, 41, 56, 8, 25, 43, 62, 18, 39, 61, 20, 44]"

definition PI :: "nat list" where
  "PI = [10, 7, 11, 17, 18, 3, 5, 16, 8, 21, 24, 4,
         15, 23, 19, 13, 12, 2, 20, 14, 22, 9, 6, 1]"

text \<open>\<open>rotl64(x, n) = ((x << n) | (x >> (64n - n))) & 0xffffffffffffffffn\<close>; every call
  passes \<open>1\<close> or an entry of \<open>ROTC\<close>, so \<open>64 - n\<close> is never negative.\<close>

definition rotl64 :: "int \<Rightarrow> nat \<Rightarrow> int" where
  "rotl64 x n = (push_bit n x OR drop_bit (64 - n) x) AND 0xffffffffffffffff"

subsection \<open>Theta\<close>

text \<open>\<open>for (x = 0; x < 5; x++) C[x] = state[x] ^ state[x+5] ^ state[x+10] ^ state[x+15] ^ state[x+20]\<close>;
  \<open>C\<close> starts empty, so the assignment at index \<open>x = C.length\<close> appends.\<close>

function theta_C_loop :: "nat \<Rightarrow> int list \<Rightarrow> int list \<Rightarrow> int list" where
  "theta_C_loop x state C =
     (if x < 5
      then theta_C_loop (x + 1) state
             (C @ [state ! x XOR state ! (x + 5) XOR state ! (x + 10)
                     XOR state ! (x + 15) XOR state ! (x + 20)])
      else C)"
  by pat_completeness auto
termination
  by (relation "measure (\<lambda>(x, state, C). 5 - x)") auto

text \<open>\<open>for (y = 0; y < 25; y += 5) state[x + y] ^= D\<close>\<close>

function theta_y_loop :: "nat \<Rightarrow> nat \<Rightarrow> int \<Rightarrow> int list \<Rightarrow> int list" where
  "theta_y_loop y x D state =
     (if y < 25
      then theta_y_loop (y + 5) x D (state[x + y := state ! (x + y) XOR D])
      else state)"
  by pat_completeness auto
termination
  by (relation "measure (\<lambda>(y, x, D, state). 25 - y)") auto

definition theta_D :: "int list \<Rightarrow> nat \<Rightarrow> int" where
  "theta_D C x = C ! ((x + 4) mod 5) XOR rotl64 (C ! ((x + 1) mod 5)) 1"

function theta_x_loop :: "nat \<Rightarrow> int list \<Rightarrow> int list \<Rightarrow> int list" where
  "theta_x_loop x C state =
     (if x < 5
      then theta_x_loop (x + 1) C (theta_y_loop 0 x (theta_D C x) state)
      else state)"
  by pat_completeness auto
termination
  by (relation "measure (\<lambda>(x, C, state). 5 - x)") auto

definition theta :: "int list \<Rightarrow> int list" where
  "theta state = theta_x_loop 0 (theta_C_loop 0 state []) state"

subsection \<open>Rho and Pi\<close>

text \<open>\<open>let last = state[1]; for (i = 0; i < 24; i++) { j = PI[i]; temp = state[j];
  state[j] = rotl64(last, BigInt(ROTC[i])); last = temp }\<close>\<close>

function rho_pi_loop :: "nat \<Rightarrow> int \<Rightarrow> int list \<Rightarrow> int list" where
  "rho_pi_loop i lastv state =
     (if i < 24
      then rho_pi_loop (i + 1) (state ! (PI ! i))
             (state[PI ! i := rotl64 lastv (ROTC ! i)])
      else state)"
  by pat_completeness auto
termination
  by (relation "measure (\<lambda>(i, lastv, state). 24 - i)") auto

definition rho_pi :: "int list \<Rightarrow> int list" where
  "rho_pi state = rho_pi_loop 0 (state ! 1) state"

subsection \<open>Chi\<close>

text \<open>\<open>for (x = 0; x < 5; x++) t[x] = state[y + x]\<close>: the snapshot of one row.\<close>

function chi_t_loop :: "nat \<Rightarrow> nat \<Rightarrow> int list \<Rightarrow> int list \<Rightarrow> int list" where
  "chi_t_loop x y state t =
     (if x < 5 then chi_t_loop (x + 1) y state (t @ [state ! (y + x)]) else t)"
  by pat_completeness auto
termination
  by (relation "measure (\<lambda>(x, y, state, t). 5 - x)") auto

text \<open>\<open>for (x = 0; x < 5; x++) state[y + x] = t[x] ^ (~t[(x + 1) % 5] & t[(x + 2) % 5])\<close>\<close>

function chi_x_loop :: "nat \<Rightarrow> nat \<Rightarrow> int list \<Rightarrow> int list \<Rightarrow> int list" where
  "chi_x_loop x y t state =
     (if x < 5
      then chi_x_loop (x + 1) y t
             (state[y + x := t ! x XOR (NOT (t ! ((x + 1) mod 5)) AND t ! ((x + 2) mod 5))])
      else state)"
  by pat_completeness auto
termination
  by (relation "measure (\<lambda>(x, y, t, state). 5 - x)") auto

function chi_y_loop :: "nat \<Rightarrow> int list \<Rightarrow> int list" where
  "chi_y_loop y state =
     (if y < 25
      then chi_y_loop (y + 5) (chi_x_loop 0 y (chi_t_loop 0 y state []) state)
      else state)"
  by pat_completeness auto
termination
  by (relation "measure (\<lambda>(y, state). 25 - y)") auto

definition chi :: "int list \<Rightarrow> int list" where
  "chi state = chi_y_loop 0 state"

subsection \<open>Iota and the 24 rounds\<close>

definition iota :: "nat \<Rightarrow> int list \<Rightarrow> int list" where
  "iota rnd state = state[0 := state ! 0 XOR RC ! rnd]"

definition keccak_round :: "nat \<Rightarrow> int list \<Rightarrow> int list" where
  "keccak_round rnd state = iota rnd (chi (rho_pi (theta state)))"

function keccakF_loop :: "nat \<Rightarrow> int list \<Rightarrow> int list" where
  "keccakF_loop rnd state =
     (if rnd < 24 then keccakF_loop (rnd + 1) (keccak_round rnd state) else state)"
  by pat_completeness auto
termination
  by (relation "measure (\<lambda>(rnd, state). 24 - rnd)") auto

definition keccakF :: "int list \<Rightarrow> int list" where
  "keccakF state = keccakF_loop 0 state"

declare theta_C_loop.simps [simp del] theta_y_loop.simps [simp del]
  theta_x_loop.simps [simp del] rho_pi_loop.simps [simp del]
  chi_t_loop.simps [simp del] chi_x_loop.simps [simp del]
  chi_y_loop.simps [simp del] keccakF_loop.simps [simp del]


subsection \<open>Sponge: padding, absorbing, squeezing\<close>

text \<open>Bytes are the elements of a \<open>Uint8Array\<close>: \<open>8 word\<close>.  \<open>BigInt(byte)\<close> is \<open>uint\<close>,
  a store into a \<open>Uint8Array\<close> keeps the low 8 bits (\<open>word_of_int\<close>), and a store beyond
  the end of a typed array is ignored, as \<open>list_update\<close> does.\<close>

type_synonym byte = "8 word"

definition rate :: nat where
  "rate = 136"

text \<open>\<open>Math.ceil((input.length + 1) / rate) * rate\<close>\<close>

definition padded_length :: "nat \<Rightarrow> nat" where
  "padded_length n = nat \<lceil>real (n + 1) / real rate\<rceil> * rate"

text \<open>\<open>padded = new Uint8Array(...)\<close> is zero-filled; \<open>padded.set(input)\<close> copies the input to
  its front; then \<open>padded[input.length] = 0x01\<close> and \<open>padded[padded.length - 1] |= 0x80\<close>.\<close>

definition pad :: "byte list \<Rightarrow> byte list" where
  "pad input =
     (let n = padded_length (length input);
          p0 = input @ replicate (n - length input) 0;
          p1 = p0[length input := 0x01]
      in p1[n - 1 := p1 ! (n - 1) OR 0x80])"

text \<open>\<open>for (b = 0; b < 8; b++) lane |= BigInt(padded[offset + i * 8 + b]) << BigInt(b * 8)\<close>\<close>

function lane_loop :: "nat \<Rightarrow> nat \<Rightarrow> nat \<Rightarrow> byte list \<Rightarrow> int \<Rightarrow> int" where
  "lane_loop b offset i padded lane =
     (if b < 8
      then lane_loop (b + 1) offset i padded
             (lane OR push_bit (b * 8) (uint (padded ! (offset + i * 8 + b))))
      else lane)"
  by pat_completeness auto
termination
  by (relation "measure (\<lambda>(b, offset, i, padded, lane). 8 - b)") auto

text \<open>\<open>for (i = 0; i < rate / 8; i++) { ...; state[i] ^= lane }\<close>\<close>

function absorb_i_loop :: "nat \<Rightarrow> nat \<Rightarrow> byte list \<Rightarrow> int list \<Rightarrow> int list" where
  "absorb_i_loop i offset padded state =
     (if i < rate div 8
      then absorb_i_loop (i + 1) offset padded
             (state[i := state ! i XOR lane_loop 0 offset i padded 0])
      else state)"
  by pat_completeness auto
termination
  by (relation "measure (\<lambda>(i, offset, padded, state). rate div 8 - i)") auto

text \<open>\<open>for (offset = 0; offset < padded.length; offset += rate) { ...; keccakF(state) }\<close>\<close>

function absorb_loop :: "nat \<Rightarrow> byte list \<Rightarrow> int list \<Rightarrow> int list" where
  "absorb_loop offset padded state =
     (if offset < length padded
      then absorb_loop (offset + rate) padded (keccakF (absorb_i_loop 0 offset padded state))
      else state)"
  by pat_completeness auto
termination
  by (relation "measure (\<lambda>(offset, padded, state). length padded - offset)")
     (auto simp: rate_def)

text \<open>\<open>output[i * 8 + b] = Number((lane >> BigInt(b * 8)) & 0xffn)\<close>\<close>

function squeeze_b_loop :: "nat \<Rightarrow> nat \<Rightarrow> int \<Rightarrow> byte list \<Rightarrow> byte list" where
  "squeeze_b_loop b i lane output =
     (if b < 8
      then squeeze_b_loop (b + 1) i lane
             (output[i * 8 + b := word_of_int (drop_bit (b * 8) lane AND 0xff)])
      else output)"
  by pat_completeness auto
termination
  by (relation "measure (\<lambda>(b, i, lane, output). 8 - b)") auto

function squeeze_i_loop :: "nat \<Rightarrow> int list \<Rightarrow> byte list \<Rightarrow> byte list" where
  "squeeze_i_loop i state output =
     (if i < 4
      then squeeze_i_loop (i + 1) state (squeeze_b_loop 0 i (state ! i) output)
      else output)"
  by pat_completeness auto
termination
  by (relation "measure (\<lambda>(i, state, output). 4 - i)") auto

definition keccak256 :: "byte list \<Rightarrow> byte list" where
  "keccak256 input =
     squeeze_i_loop 0 (absorb_loop 0 (pad input) (replicate 25 0)) (replicate 32 0)"

declare lane_loop.simps [simp del] absorb_i_loop.simps [simp del]
  absorb_loop.simps [simp del] squeeze_b_loop.simps [simp del]
  squeeze_i_loop.simps [simp del]

subsection \<open>Hexadecimal output\<close>

text \<open>\<open>b.toString(16).padStart(2, '0')\<close> and \<open>.join('')\<close>.  A JavaScript string of ASCII
  characters is a \<open>string\<close>; \<open>TextEncoder().encode\<close> of such a string gives one byte per
  character.\<close>

definition hex_digit :: "nat \<Rightarrow> char" where
  "hex_digit d = ''0123456789abcdef'' ! d"

function toString16 :: "nat \<Rightarrow> string" where
  "toString16 n = (if n < 16 then [hex_digit n] else toString16 (n div 16) @ [hex_digit (n mod 16)])"
  by pat_completeness auto
termination
  by (relation "measure id") auto

declare toString16.simps [simp del]

definition padStart :: "nat \<Rightarrow> char \<Rightarrow> string \<Rightarrow> string" where
  "padStart n c s = replicate (n - length s) c @ s"

definition byte_hex :: "byte \<Rightarrow> string" where
  "byte_hex b = padStart 2 (CHR ''0'') (toString16 (unat b))"

definition bytes_hex :: "byte list \<Rightarrow> string" where
  "bytes_hex bs = concat (map byte_hex bs)"

definition text_encode :: "string \<Rightarrow> byte list" where
  "text_encode s = map (\<lambda>c. of_nat (of_char c)) s"

definition keccak256Hex :: "string \<Rightarrow> string" where
  "keccak256Hex input = bytes_hex (keccak256 (text_encode input))"

definition keccak256Bytes :: "byte list \<Rightarrow> string" where
  "keccak256Bytes bytes = bytes_hex (keccak256 bytes)"

subsection \<open>The lane invariant and the states of a computation\<close>

definition lane_ok :: "int \<Rightarrow> bool" where
  "lane_ok x \<longleftrightarrow> 0 \<le> x \<and> x < 2 ^ 64"

definition lanes_ok :: "int list \<Rightarrow> bool" where
  "lanes_ok state \<longleftrightarrow> length state = 25 \<and> (\<forall>x \<in> set state. lane_ok x)"

text \<open>The permutation state after each of the four steps of round \<open>rnd\<close>, after each
  round of \<open>keccakF\<close>, and after each block of \<open>keccak256\<close> is absorbed and permuted.\<close>

definition round_states :: "nat \<Rightarrow> int list \<Rightarrow> int list list" where
  "round_states rnd state =
     [theta state,
      rho_pi (theta state),
      chi (rho_pi (theta state)),
      iota rnd (chi (rho_pi (theta state)))]"

function keccakF_states :: "nat \<Rightarrow> int list \<Rightarrow> int list list" where
  "keccakF_states rnd state =
     (if rnd < 24
      then round_states rnd state @ keccakF_states (rnd + 1) (keccak_round rnd state)
      else [])"
  by pat_completeness auto
termination
  by (relation "measure (\<lambda>(rnd, state). 24 - rnd)") auto

function absorb_states :: "nat \<Rightarrow> byte list \<Rightarrow> int list \<Rightarrow> int list list" where
  "absorb_states offset padded state =
     (if offset < length padded
      then absorb_i_loop 0 offset padded state
             # keccakF_states 0 (absorb_i_loop 0 offset padded state)
             @ absorb_states (offset + rate) padded
                 (keccakF (absorb_i_loop 0 offset padded state))
      else [])"
  by pat_completeness auto
termination
  by (relation "measure (\<lambda>(offset, padded, state). length padded - offset)")
     (auto simp: rate_def)

declare keccakF_states.simps [simp del] absorb_states.simps [simp del]

definition keccak256_states :: "byte list \<Rightarrow> int list list" where
  "keccak256_states input = absorb_states 0 (pad input) (replicate 25 0)"

section \<open>Checksum casing (modules/address.ts)\<close>

text \<open>The errors the specification names, and the one the JavaScript runtime itself
  raises (\<open>TypeError\<close>, for a method call on \<open>undefined\<close>).  A function that can
  throw returns \<open>error + 'a\<close>.\<close>

datatype error = EmptyInputError | DomainError | TypeError

text \<open>\<open>s[i]\<close> on a string: \<open>undefined\<close> (here \<open>None\<close>) beyond the end.\<close>

definition char_at :: "string \<Rightarrow> nat \<Rightarrow> char option" where
  "char_at s i = (if i < length s then Some (s ! i) else None)"

text \<open>\<open>parseInt(c, 16)\<close> for a string of at most one character: the value of a
  hexadecimal digit of either case, \<open>NaN\<close> (here \<open>None\<close>) for anything else, also for
  \<open>undefined\<close>.\<close>

definition parseInt16 :: "char option \<Rightarrow> nat option" where
  "parseInt16 c =
     (case c of
        None \<Rightarrow> None
      | Some ch \<Rightarrow>
          (let n = (of_char ch :: nat)
           in if 48 \<le> n \<and> n \<le> 57 then Some (n - 48)
              else if 97 \<le> n \<and> n \<le> 102 then Some (n - 87)
              else if 65 \<le> n \<and> n \<le> 70 then Some (n - 55)
              else None))"

text \<open>\<open>hashNibble >= 8\<close>; a comparison with \<open>NaN\<close> is false.\<close>

definition ge8 :: "nat option \<Rightarrow> bool" where
  "ge8 v = (case v of None \<Rightarrow> False | Some n \<Rightarrow> 8 \<le> n)"

text \<open>\<open>toUpperCase\<close> on one ASCII character.\<close>

definition toUpperCase :: "char \<Rightarrow> char" where
  "toUpperCase c =
     (let n = (of_char c :: nat) in if 97 \<le> n \<and> n \<le> 122 then char_of (n - 32) else c)"

text \<open>\<open>for (i = 0; i < 40; i++) { hashNibble = parseInt(hashHex[i], 16);
  checksummed += hashNibble >= 8 ? hex[i].toUpperCase() : hex[i] }\<close>.
  Where \<open>hex[i]\<close> is \<open>undefined\<close>, the method call throws and the plain concatenation
  appends the text \<open>undefined\<close>.\<close>

function checksum_loop :: "nat \<Rightarrow> string \<Rightarrow> string \<Rightarrow> string \<Rightarrow> error + string" where
  "checksum_loop i hex hashHex checksummed =
     (if i < 40
      then (if ge8 (parseInt16 (char_at hashHex i))
            then (case char_at hex i of
                    None \<Rightarrow> Inl TypeError
                  | Some c \<Rightarrow> checksum_loop (i + 1) hex hashHex (checksummed @ [toUpperCase c]))
            else (case char_at hex i of
                    None \<Rightarrow> checksum_loop (i + 1) hex hashHex (checksummed @ ''undefined'')
                  | Some c \<Rightarrow> checksum_loop (i + 1) hex hashHex (checksummed @ [c])))
      else Inr checksummed)"
  by pat_completeness auto
termination
  by (relation "measure (\<lambda>(i, hex, hashHex, checksummed). 40 - i)") auto

declare checksum_loop.simps [simp del]

definition toChecksumAddress :: "byte list \<Rightarrow> error + string" where
  "toChecksumAddress bytes =
     (let hex = bytes_hex bytes;
          hashInput = text_encode hex;
          hash = keccak256 hashInput;
          hashHex = bytes_hex hash
      in checksum_loop 0 hex hashHex ''0x'')"

text \<open>The nibble of the digest that the specification assigns to output character
  \<open>i\<close>: digest byte \<open>i div 2\<close>, its high half for even \<open>i\<close>, its low half for odd \<open>i\<close>.\<close>

definition digest_nibble :: "byte list \<Rightarrow> nat \<Rightarrow> nat" where
  "digest_nibble digest i =
     (if even i then unat (digest ! (i div 2)) div 16 else unat (digest ! (i div 2)) mod 16)"

text \<open>The casing the specification describes, character by character.\<close>

definition spec_casing :: "string \<Rightarrow> byte list \<Rightarrow> string" where
  "spec_casing hex digest =
     map (\<lambda>i. if 8 \<le> digest_nibble digest i then toUpperCase (hex ! i) else hex ! i) [0..<40]"

text \<open>The canonical 20-byte test value \<open>5aaeb6053f3e94c9b9a09f33669435e7ef1beaed\<close>.\<close>

definition eip55_bytes :: "byte list" where
  "eip55_bytes = [0x5a, 0xae, 0xb6, 0x05, 0x3f, 0x3e, 0x94, 0xc9, 0xb9, 0xa0,
                  0x9f, 0x33, 0x66, 0x94, 0x35, 0xe7, 0xef, 0x1b, 0xea, 0xed]"

section \<open>JavaScript numbers\<close>

text \<open>
  A JavaScript number is an IEEE 754 double: a finite value, one of the two infinities,
  or \<open>NaN\<close>.  A finite double is modelled by the real number it denotes; the sign of zero
  is not modelled (\<open>-0\<close> and \<open>+0\<close> compare equal and differ only as a divisor).
\<close>

datatype jsnum = Num real | PosInf | NegInf | NaN

text \<open>Rounding to the nearest integer, a tie to the even one.\<close>

definition rne :: "real \<Rightarrow> int" where
  "rne y =
     (let f = \<lfloor>y\<rfloor>; d = y - of_int f
      in if d < 1 / 2 then f else if 1 / 2 < d then f + 1 else if even f then f else f + 1)"

text \<open>
  Rounding of a real number to the finite doubles, with unbounded exponent upwards.  The
  doubles are the multiples of \<open>2^-1074\<close> with at most 53 significant bits.  In units of
  \<open>2^-1074\<close>, a magnitude \<open>y\<close> whose integer part has \<open>b\<close> bits is rounded to a multiple
  of \<open>2^(b - 53)\<close>, and to an integer when \<open>b \<le> 53\<close> (the subnormal numbers and the
  lowest binade).
\<close>

definition round_units :: "real \<Rightarrow> real" where
  "round_units y = (let q = 2 ^ nat (bitlen \<lfloor>y\<rfloor> - 53) in of_int (rne (y / q)) * q)"

definition round_double :: "real \<Rightarrow> real" where
  "round_double x = sgn x * (round_units (\<bar>x\<bar> * 2 ^ 1074) / 2 ^ 1074)"

text \<open>The result of an arithmetic operation whose exact value is \<open>x\<close>: a magnitude of
  at least \<open>2^1024 - 2^970\<close>, halfway between the largest finite double and \<open>2^1024\<close>,
  gives an infinity.\<close>

definition fl :: "real \<Rightarrow> jsnum" where
  "fl x =
     (if 2 ^ 1024 - 2 ^ 970 \<le> x then PosInf
      else if x \<le> - (2 ^ 1024 - 2 ^ 970) then NegInf
      else Num (round_double x))"





text \<open>The comparison \<open><=\<close>: false when an operand is \<open>NaN\<close>.\<close>

fun js_le :: "jsnum \<Rightarrow> jsnum \<Rightarrow> bool" where
  "js_le (Num x) (Num y) \<longleftrightarrow> x \<le> y"
| "js_le NaN b \<longleftrightarrow> False"
| "js_le a NaN \<longleftrightarrow> False"
| "js_le NegInf b \<longleftrightarrow> True"
| "js_le (Num x) PosInf \<longleftrightarrow> True"
| "js_le PosInf PosInf \<longleftrightarrow> True"
| "js_le (Num x) NegInf \<longleftrightarrow> False"
| "js_le PosInf (Num y) \<longleftrightarrow> False"
| "js_le PosInf NegInf \<longleftrightarrow> False"




fun Math_min :: "jsnum \<Rightarrow> jsnum \<Rightarrow> jsnum" where
  "Math_min (Num x) (Num y) = Num (min x y)"
| "Math_min NaN b = NaN"
| "Math_min a NaN = NaN"
| "Math_min NegInf b = NegInf"
| "Math_min a NegInf = NegInf"
| "Math_min PosInf b = b"
| "Math_min a PosInf = a"







section \<open>Deterministic engine (core/prng.ts)\<close>

subsection \<open>JavaScript 32-bit integer operators\<close>

text \<open>
  The register and every intermediate value of \<open>next()\<close> is a JavaScript number that
  holds an integer of magnitude below \<open>2^53\<close>, which a double represents exactly: they
  are modelled as \<open>int\<close>.  The bitwise operators convert their operands with
  \<open>ToInt32\<close> (\<open>>>>\<close> converts the left one with \<open>ToUint32\<close> and takes the shift count
  modulo 32); \<open>+\<close> does not truncate.
\<close>

definition toInt32 :: "int \<Rightarrow> int" where
  "toInt32 x = (x + 2 ^ 31) mod 2 ^ 32 - 2 ^ 31"

definition toUint32 :: "int \<Rightarrow> int" where
  "toUint32 x = x mod 2 ^ 32"

definition js_or :: "int \<Rightarrow> int \<Rightarrow> int" where
  "js_or a b = toInt32 a OR toInt32 b"

definition js_xor :: "int \<Rightarrow> int \<Rightarrow> int" where
  "js_xor a b = toInt32 a XOR toInt32 b"

definition js_ushr :: "int \<Rightarrow> nat \<Rightarrow> int" where
  "js_ushr a n = drop_bit (n mod 32) (toUint32 a)"

text \<open>\<open>Math.imul(a, b)\<close>: the product of the two operands modulo \<open>2^32\<close>, read as a signed
  32-bit integer.\<close>

definition Math_imul :: "int \<Rightarrow> int \<Rightarrow> int" where
  "Math_imul a b = toInt32 (toUint32 a * toUint32 b)"

subsection \<open>The engine\<close>

record prng =
  state :: int

text \<open>\<open>constructor(seed) { this.state = seed | 0 }\<close> and \<open>seed(value)\<close>, for an integer
  seed.\<close>

definition prng_new :: "int \<Rightarrow> prng" where
  "prng_new seed = \<lparr>state = js_or seed 0\<rparr>"

definition prng_seed :: "int \<Rightarrow> prng \<Rightarrow> prng" where
  "prng_seed v g = g\<lparr>state := js_or v 0\<rparr>"

text \<open>
  \<open>next()\<close>.  The quotient of an unsigned 32-bit integer by \<open>4294967296 = 2^32\<close> is exact
  in double precision, so the returned number is that rational, here a \<open>real\<close>.
\<close>

definition prng_next :: "prng \<Rightarrow> real \<times> prng" where
  "prng_next g =
     (let s0 = js_or (state g) 0;
          s1 = js_or (s0 + 0x6d2b79f5) 0;
          t1 = Math_imul (js_xor s1 (js_ushr s1 15)) (js_or 1 s1);
          t2 = js_xor (t1 + Math_imul (js_xor t1 (js_ushr t1 7)) (js_or 61 t1)) t1
      in (of_int (js_ushr (js_xor t2 (js_ushr t2 14)) 0) / 4294967296, g\<lparr>state := s1\<rparr>))"

text \<open>The mixing formula as the specification words it, on 32-bit words: every addition
  and multiplication wraps, \<open>drop_bit\<close> is the logical right shift.\<close>

definition mulberry32_word :: "32 word \<Rightarrow> 32 word" where
  "mulberry32_word r =
     (let s = r + 0x6D2B79F5;
          t = (s XOR drop_bit 15 s) * (1 OR s);
          t' = (t + (t XOR drop_bit 7 t) * (61 OR t)) XOR t
      in t' XOR drop_bit 14 t')"


text \<open>
  The same on integers, in exact arithmetic.  It is what the doubles give when \<open>min\<close> is
  at most \<open>2^52\<close> in magnitude and \<open>max - min\<close> is below \<open>2^21\<close> (lemma
  \<open>prng_int_double_exact\<close> below): no step rounds there.  The array samplers and the
  candle loop are written with it; they call it with the index range of an array or with
  the literal range \<open>10..50\<close>.
\<close>

definition prng_int :: "int \<Rightarrow> int \<Rightarrow> prng \<Rightarrow> int \<times> prng" where
  "prng_int mn mx g =
     (let (u, g') = prng_next g in (\<lfloor>u * of_int (mx - mn + 1)\<rfloor> + mn, g'))"


subsection \<open>Arrays\<close>

text \<open>
  An element of a JavaScript array is a value or \<open>undefined\<close> (\<open>None\<close>); a read outside
  the array gives \<open>undefined\<close>, a write beyond the end extends the array with holes.
  Arrays are objects: a heap maps a reference to the array's current contents, so that
  what a call does to the caller's array can be stated.
\<close>

type_synonym 'a jsarray = "'a option list"

type_synonym ref = nat

type_synonym 'a heap = "'a jsarray list"

definition alloc :: "'a heap \<Rightarrow> 'a jsarray \<Rightarrow> ref \<times> 'a heap" where
  "alloc h xs = (length h, h @ [xs])"

definition js_get :: "'a jsarray \<Rightarrow> int \<Rightarrow> 'a option" where
  "js_get xs i = (if 0 \<le> i \<and> i < int (length xs) then xs ! nat i else None)"

definition js_set :: "'a jsarray \<Rightarrow> int \<Rightarrow> 'a option \<Rightarrow> 'a jsarray" where
  "js_set xs i v =
     (if i < 0 then xs
      else if i < int (length xs) then xs[nat i := v]
      else xs @ replicate (nat i - length xs) None @ [v])"

text \<open>\<open>xs.splice(idx, 1)\<close>: a negative start counts from the end, a start beyond the
  end is the end; one element is removed if there is one at the start.\<close>

definition js_splice1 :: "'a jsarray \<Rightarrow> int \<Rightarrow> 'a jsarray" where
  "js_splice1 xs idx =
     (let len = int (length xs);
          start = (if idx < 0 then max (len + idx) 0 else min idx len)
      in take (nat start) xs @ drop (nat start + 1) xs)"

subsection \<open>Choice\<close>

text \<open>\<open>pick(arr) { return arr[this.int(0, arr.length - 1)] }\<close>: there is no \<open>throw\<close> in
  the class, so the result is always \<open>Inr\<close>.\<close>

definition prng_pick :: "'a jsarray \<Rightarrow> prng \<Rightarrow> error + ('a option \<times> prng)" where
  "prng_pick arr g =
     (let (i, g') = prng_int 0 (int (length arr) - 1) g in Inr (js_get arr i, g'))"

text \<open>\<open>for (i = 0; i < n; i++) { idx = this.int(0, copy.length - 1);
  result.push(copy[idx]); copy.splice(idx, 1) }\<close>, for a finite bound \<open>n\<close>, which need not
  be an integer.\<close>

function pickMultiple_loop ::
    "nat \<Rightarrow> real \<Rightarrow> ref \<Rightarrow> ref \<Rightarrow> 'a heap \<times> prng \<Rightarrow> 'a heap \<times> prng" where
  "pickMultiple_loop i n copy result (h, g) =
     (if real i < n
      then (let (idx, g') = prng_int 0 (int (length (h ! copy)) - 1) g;
                h1 = h[result := (h ! result) @ [js_get (h ! copy) idx]];
                h2 = h1[copy := js_splice1 (h1 ! copy) idx]
            in pickMultiple_loop (i + 1) n copy result (h2, g'))
      else (h, g))"
  by pat_completeness auto
termination
  by (relation "measure (\<lambda>(i, n, copy, result, hg). nat \<lceil>n\<rceil> - i)") (auto, linarith)

declare pickMultiple_loop.simps [simp del]

text \<open>
  \<open>copy = [...arr]; result = []; n = Math.min(count, copy.length)\<close>; the parameter
  \<open>count\<close> (here \<open>cnt\<close>) is any number.  The minimum of a number and a length is a
  finite number, \<open>-Infinity\<close> or \<open>NaN\<close>, and for the last two the test \<open>i < n\<close> fails at
  once.
\<close>

definition prng_pickMultiple ::
    "ref \<Rightarrow> jsnum \<Rightarrow> 'a heap \<times> prng \<Rightarrow> ref \<times> 'a heap \<times> prng" where
  "prng_pickMultiple arr cnt hg =
     (let (h, g) = hg;
          (copy, h1) = alloc h (h ! arr);
          (result, h2) = alloc h1 [];
          (h3, g') = (case Math_min cnt (Num (real (length (h2 ! copy)))) of
                        Num n \<Rightarrow> pickMultiple_loop 0 n copy result (h2, g)
                      | _ \<Rightarrow> (h2, g))
      in (result, h3, g'))"

text \<open>
  What the specification says of the selections, on the positions of the caller's array.
  \<open>rest\<close> lists the positions not yet chosen, in increasing order.  Each of \<open>k\<close>
  selections draws an index into \<open>rest\<close> with \<open>int(0, length rest - 1)\<close> and takes the
  position found there out of \<open>rest\<close>; the positions taken are listed in the order in
  which they were taken.
\<close>

fun selected_positions :: "nat \<Rightarrow> nat list \<Rightarrow> prng \<Rightarrow> nat list" where
  "selected_positions 0 rest g = []"
| "selected_positions (Suc k) rest g =
     (let (idx, g') = prng_int 0 (int (length rest) - 1) g
      in rest ! nat idx
           # selected_positions k (take (nat idx) rest @ drop (nat idx + 1) rest) g')"

text \<open>The number of integers \<open>i \<ge> 0\<close> with \<open>i < Math.min(count, len)\<close>.\<close>

definition selections :: "jsnum \<Rightarrow> nat \<Rightarrow> nat" where
  "selections cnt len =
     (case cnt of
        Num c \<Rightarrow> nat \<lceil>min c (real len)\<rceil>
      | PosInf \<Rightarrow> len
      | _ \<Rightarrow> 0)"

text \<open>\<open>for (i = arr.length - 1; i > 0; i--) { j = this.int(0, i);
  [arr[i], arr[j]] = [arr[j], arr[i]] }\<close>: the right-hand side is read before either
  store.\<close>

function shuffle_loop :: "int \<Rightarrow> ref \<Rightarrow> 'a heap \<times> prng \<Rightarrow> 'a heap \<times> prng" where
  "shuffle_loop i arr (h, g) =
     (if i > 0
      then (let (j, g') = prng_int 0 i g;
                vj = js_get (h ! arr) j;
                vi = js_get (h ! arr) i;
                h1 = h[arr := js_set (h ! arr) i vj];
                h2 = h1[arr := js_set (h1 ! arr) j vi]
            in shuffle_loop (i - 1) arr (h2, g'))
      else (h, g))"
  by pat_completeness auto
termination
  by (relation "measure (\<lambda>(i, arr, hg). nat i)") auto

declare shuffle_loop.simps [simp del]

definition prng_shuffle :: "ref \<Rightarrow> 'a heap \<times> prng \<Rightarrow> ref \<times> 'a heap \<times> prng" where
  "prng_shuffle arr hg =
     (let (h, g) = hg;
          (h', g') = shuffle_loop (int (length (h ! arr)) - 1) arr (h, g)
      in (arr, h', g'))"

subsection \<open>Gaussian and power-law samplers\<close>


text \<open>\<open>powerLaw(min, max, alpha)\<close>: the first statement is \<open>const u = this.next()\<close>;
  nothing checks the arguments and nothing throws.  The returned number is written in
  exact arithmetic, \<open>Math.pow\<close> as the real power.\<close>

definition prng_powerLaw :: "real \<Rightarrow> real \<Rightarrow> real \<Rightarrow> prng \<Rightarrow> error + (real \<times> prng)" where
  "prng_powerLaw mn mx alpha g =
     (let (u, g') = prng_next g;
          minA = mn powr (1 - alpha);
          maxA = mx powr (1 - alpha)
      in Inr ((minA + u * (maxA - minA)) powr (1 / (1 - alpha)), g'))"

section \<open>Price-path sampler (modules/dex.ts)\<close>



























section \<open>Evaluation rules\<close>

text \<open>Unconditional rewrite rules that evaluate the loops of the permutation on
  numerals: list reads and writes at numeral positions, and the bit operations of \<open>int\<close>
  on binary numerals.\<close>

lemma push_bit_num_eval:
  "push_bit (numeral l) (numeral k :: int) = push_bit (pred_numeral l) (numeral (Num.Bit0 k))"
  by simp

lemma push_bit_zero_eval: "push_bit 0 (k::int) = k"
  by simp

lemma drop_bit_zero_eval: "drop_bit 0 (k::int) = k"
  by simp

lemma drop_bit_one_eval: "drop_bit (numeral l) (Numeral1 :: int) = 0"
  by simp

lemma not_zero_and_eval: "NOT 0 AND (k::int) = k"
  by simp

lemma nth_Cons_num_eval: "(x # xs) ! numeral v = xs ! pred_numeral v"
  by (simp add: numeral_eq_Suc)

lemma upd_Cons_num_eval: "(x # xs)[numeral v := y] = x # xs[pred_numeral v := y]"
  by (simp add: numeral_eq_Suc)

lemma upd_Cons_zero_eval: "(x # xs)[0 := y] = y # xs"
  by simp

lemma replicate_num_eval: "replicate (numeral k) x = x # replicate (pred_numeral k) x"
  by (simp add: numeral_eq_Suc)

lemma mod5_eval:
  "0 mod 5 = (0::nat)" "Numeral1 mod 5 = (Numeral1::nat)" "2 mod 5 = (2::nat)"
  "3 mod 5 = (3::nat)" "4 mod 5 = (4::nat)" "5 mod 5 = (0::nat)"
  "6 mod 5 = (Numeral1::nat)" "7 mod 5 = (2::nat)" "8 mod 5 = (3::nat)"
  by simp_all

lemmas bit_eval =
  numeral_and_num numeral_or_num numeral_xor_num int_numeral_not_and_num
  and_num.simps or_num.simps xor_num.simps and_not_num.simps option.case option.map
  push_bit_num_eval push_bit_zero_eval drop_bit_zero_eval drop_bit_one_eval
  drop_bit_numeral_bit0 drop_bit_numeral_bit1 pred_numeral_simps Num.BitM.simps
  push_bit_of_0 drop_bit_of_0 not_zero_and_eval
  bit.xor_self xor.left_neutral xor.right_neutral and_zero_eq zero_and_eq
  or.left_neutral or.right_neutral

lemmas list_eval =
  nth_Cons_num_eval nth_Cons_0 upd_Cons_num_eval upd_Cons_zero_eval append.simps

lemmas nat_eval =
  numeral_One [symmetric] arith_simps rel_simps if_True if_False mod5_eval
  diff_nat_numeral nat_numeral nat_0 simp_thms

lemmas keccakF_eval =
  theta_C_loop.simps theta_y_loop.simps theta_x_loop.simps rho_pi_loop.simps
  chi_t_loop.simps chi_x_loop.simps chi_y_loop.simps keccakF_loop.simps
  keccakF_def keccak_round_def iota_def chi_def rho_pi_def theta_def theta_D_def
  rotl64_def RC_def ROTC_def PI_def

lemma ceil_aux: "\<lceil>real (n + 1) / 136\<rceil> = int (n div 136 + 1)"
proof -
  have "real (n + 1) / 136 = of_int (int n + 1) / of_int 136" by simp
  then have "\<lceil>real (n + 1) / 136\<rceil> = - (- (int n + 1) div 136)"
    by (simp only: ceiling_divide_eq_div)
  also have "\<dots> = int (n div 136 + 1)"
    by (simp add: zdiv_int)
  finally show ?thesis .
qed

lemma padded_length_eq: "padded_length n = (n div 136 + 1) * 136"
  using ceil_aux [of n] by (simp add: padded_length_def rate_def)

section \<open>The lane invariant of Keccak-f\<close>

lemma length_pad: "length (pad input) = padded_length (length input)"
proof -
  have "length input \<le> padded_length (length input)"
    by (simp add: padded_length_eq)
  then show ?thesis by (simp add: pad_def Let_def)
qed

lemma lane_ok_xor: "lane_ok a \<Longrightarrow> lane_ok b \<Longrightarrow> lane_ok (a XOR b)"
  using XOR_upper [of a 64 b] by (simp add: lane_ok_def)

lemma lane_ok_and_mask: "lane_ok (x AND 0xffffffffffffffff)"
proof -
  have "x AND 0xffffffffffffffff \<le> 0xffffffffffffffff" by (rule AND_upper2) simp
  then show ?thesis by (simp add: lane_ok_def)
qed

lemma lane_ok_rotl64: "lane_ok (rotl64 x n)"
  by (simp add: rotl64_def lane_ok_and_mask)

lemma lane_ok_chi: "lane_ok a \<Longrightarrow> lane_ok c \<Longrightarrow> lane_ok (a XOR (NOT b AND c))"
proof -
  assume a: "lane_ok a" and c: "lane_ok c"
  have "0 \<le> NOT b AND c" using c by (simp add: lane_ok_def)
  moreover have "NOT b AND c \<le> c" using c by (simp add: lane_ok_def)
  ultimately have "lane_ok (NOT b AND c)" using c by (simp add: lane_ok_def)
  with a show ?thesis by (rule lane_ok_xor)
qed

lemma not_lane_negative: "lane_ok b \<Longrightarrow> NOT b < 0"
  by (simp add: lane_ok_def)

lemma lanes_ok_nth: "lanes_ok s \<Longrightarrow> i < 25 \<Longrightarrow> lane_ok (s ! i)"
  by (simp add: lanes_ok_def)

lemma lanes_ok_update: "lanes_ok s \<Longrightarrow> (i < 25 \<Longrightarrow> lane_ok v) \<Longrightarrow> lanes_ok (s[i := v])"
proof (cases "i < 25")
  case True
  assume "lanes_ok s" "i < 25 \<Longrightarrow> lane_ok v"
  with True show ?thesis
    using set_update_subset_insert [of s i v] by (auto simp: lanes_ok_def)
next
  case False
  assume "lanes_ok s"
  with False have "s[i := v] = s" by (intro list_update_beyond) (simp add: lanes_ok_def)
  with \<open>lanes_ok s\<close> show ?thesis by simp
qed

lemma lanes_ok_zero: "lanes_ok (replicate 25 0)"
  by (simp add: lanes_ok_def lane_ok_def)

subsection \<open>Theta\<close>

lemma theta_C_loop_ok:
  "lanes_ok st \<Longrightarrow> \<forall>c \<in> set C. lane_ok c \<Longrightarrow> \<forall>c \<in> set (theta_C_loop x st C). lane_ok c"
proof (induction x st C rule: theta_C_loop.induct)
  case (1 x st C)
  show ?case
  proof (cases "x < 5")
    case True
    have "lane_ok (st ! x XOR st ! (x + 5) XOR st ! (x + 10)
                     XOR st ! (x + 15) XOR st ! (x + 20))"
      using True "1.prems"(1) by (intro lane_ok_xor lanes_ok_nth) simp_all
    with "1.prems" have "\<forall>c \<in> set (C @ [st ! x XOR st ! (x + 5) XOR st ! (x + 10)
                     XOR st ! (x + 15) XOR st ! (x + 20)]). lane_ok c"
      by simp
    from "1.IH" [OF True "1.prems"(1) this] True show ?thesis
      by (subst theta_C_loop.simps) simp
  next
    case False
    with "1.prems" show ?thesis by (subst theta_C_loop.simps) simp
  qed
qed

lemma theta_C_loop_length: "length (theta_C_loop x st C) = length C + (5 - x)"
proof (induction x st C rule: theta_C_loop.induct)
  case (1 x st C)
  show ?case
  proof (cases "x < 5")
    case True
    with "1.IH" [OF True] show ?thesis by (subst theta_C_loop.simps) simp
  next
    case False
    then show ?thesis by (subst theta_C_loop.simps) simp
  qed
qed

lemma theta_D_ok:
  assumes "length C = 5" "\<forall>c \<in> set C. lane_ok c"
  shows "lane_ok (theta_D C x)"
proof -
  have "lane_ok (C ! ((x + 4) mod 5))" using assms by simp
  then show ?thesis unfolding theta_D_def by (intro lane_ok_xor lane_ok_rotl64)
qed

lemma theta_y_loop_ok: "lanes_ok st \<Longrightarrow> lane_ok D \<Longrightarrow> lanes_ok (theta_y_loop y x D st)"
proof (induction y x D st rule: theta_y_loop.induct)
  case (1 y x D st)
  show ?case
  proof (cases "y < 25")
    case True
    have "lanes_ok (st[x + y := st ! (x + y) XOR D])"
      using "1.prems" by (intro lanes_ok_update lane_ok_xor lanes_ok_nth)
    from "1.IH" [OF True this "1.prems"(2)] True show ?thesis
      by (subst theta_y_loop.simps) simp
  next
    case False
    with "1.prems" show ?thesis by (subst theta_y_loop.simps) simp
  qed
qed

lemma theta_x_loop_ok:
  "lanes_ok st \<Longrightarrow> length C = 5 \<Longrightarrow> \<forall>c \<in> set C. lane_ok c \<Longrightarrow> lanes_ok (theta_x_loop x C st)"
proof (induction x C st rule: theta_x_loop.induct)
  case (1 x C st)
  show ?case
  proof (cases "x < 5")
    case True
    have "lanes_ok (theta_y_loop 0 x (theta_D C x) st)"
      using "1.prems" by (intro theta_y_loop_ok theta_D_ok)
    from "1.IH" [OF True this "1.prems"(2,3)] True show ?thesis
      by (subst theta_x_loop.simps) simp
  next
    case False
    with "1.prems" show ?thesis by (subst theta_x_loop.simps) simp
  qed
qed

lemma theta_ok: "lanes_ok st \<Longrightarrow> lanes_ok (theta st)"
  unfolding theta_def
  using theta_C_loop_ok [of st "[]" 0]
  by (intro theta_x_loop_ok) (simp_all add: theta_C_loop_length)

subsection \<open>Rho and Pi, Chi, Iota\<close>

lemma rho_pi_loop_ok: "lanes_ok st \<Longrightarrow> lanes_ok (rho_pi_loop i lastv st)"
proof (induction i lastv st rule: rho_pi_loop.induct)
  case (1 i lastv st)
  show ?case
  proof (cases "i < 24")
    case True
    have "lanes_ok (st[PI ! i := rotl64 lastv (ROTC ! i)])"
      using "1.prems" by (intro lanes_ok_update lane_ok_rotl64)
    from "1.IH" [OF True this] True show ?thesis
      by (subst rho_pi_loop.simps) simp
  next
    case False
    with "1.prems" show ?thesis by (subst rho_pi_loop.simps) simp
  qed
qed

lemma rho_pi_ok: "lanes_ok st \<Longrightarrow> lanes_ok (rho_pi st)"
  by (simp add: rho_pi_def rho_pi_loop_ok)

lemma chi_t_loop_ok:
  "lanes_ok st \<Longrightarrow> y + 5 \<le> 25 \<Longrightarrow> \<forall>c \<in> set t. lane_ok c
    \<Longrightarrow> \<forall>c \<in> set (chi_t_loop x y st t). lane_ok c"
proof (induction x y st t rule: chi_t_loop.induct)
  case (1 x y st t)
  show ?case
  proof (cases "x < 5")
    case True
    have "lane_ok (st ! (y + x))"
      using True "1.prems"(1,2) by (intro lanes_ok_nth) simp_all
    with "1.prems" have "\<forall>c \<in> set (t @ [st ! (y + x)]). lane_ok c" by simp
    from "1.IH" [OF True "1.prems"(1,2) this] True show ?thesis
      by (subst chi_t_loop.simps) simp
  next
    case False
    with "1.prems" show ?thesis by (subst chi_t_loop.simps) simp
  qed
qed

lemma chi_t_loop_length: "length (chi_t_loop x y st t) = length t + (5 - x)"
proof (induction x y st t rule: chi_t_loop.induct)
  case (1 x y st t)
  show ?case
  proof (cases "x < 5")
    case True
    with "1.IH" [OF True] show ?thesis by (subst chi_t_loop.simps) simp
  next
    case False
    then show ?thesis by (subst chi_t_loop.simps) simp
  qed
qed

lemma chi_x_loop_ok:
  "lanes_ok st \<Longrightarrow> length t = 5 \<Longrightarrow> \<forall>c \<in> set t. lane_ok c \<Longrightarrow> lanes_ok (chi_x_loop x y t st)"
proof (induction x y t st rule: chi_x_loop.induct)
  case (1 x y t st)
  show ?case
  proof (cases "x < 5")
    case True
    have "t ! x \<in> set t" "t ! ((x + 2) mod 5) \<in> set t"
      using True "1.prems"(2) by simp_all
    with "1.prems"(3) have "lane_ok (t ! x)" "lane_ok (t ! ((x + 2) mod 5))"
      by blast+
    then have "lane_ok (t ! x XOR (NOT (t ! ((x + 1) mod 5)) AND t ! ((x + 2) mod 5)))"
      by (rule lane_ok_chi)
    with "1.prems"(1)
    have "lanes_ok (st[y + x := t ! x XOR (NOT (t ! ((x + 1) mod 5)) AND t ! ((x + 2) mod 5))])"
      by (intro lanes_ok_update)
    from "1.IH" [OF True this "1.prems"(2,3)] show ?thesis
      by (subst chi_x_loop.simps) (simp only: True if_True)
  next
    case False
    with "1.prems" show ?thesis by (subst chi_x_loop.simps) simp
  qed
qed

lemma chi_y_loop_ok: "lanes_ok st \<Longrightarrow> y mod 5 = 0 \<Longrightarrow> lanes_ok (chi_y_loop y st)"
proof (induction y st rule: chi_y_loop.induct)
  case (1 y st)
  show ?case
  proof (cases "y < 25")
    case True
    with "1.prems"(2) have y: "y + 5 \<le> 25" by presburger
    have "\<forall>c \<in> set (chi_t_loop 0 y st []). lane_ok c"
      using chi_t_loop_ok [of st y "[]" 0] "1.prems"(1) y by simp
    then have "lanes_ok (chi_x_loop 0 y (chi_t_loop 0 y st []) st)"
      using "1.prems"(1) by (intro chi_x_loop_ok) (simp_all add: chi_t_loop_length)
    moreover have "(y + 5) mod 5 = 0" using "1.prems"(2) by simp
    ultimately show ?thesis
      using "1.IH" [OF True] True by (subst chi_y_loop.simps) simp
  next
    case False
    with "1.prems" show ?thesis by (subst chi_y_loop.simps) simp
  qed
qed

lemma chi_ok: "lanes_ok st \<Longrightarrow> lanes_ok (chi st)"
  by (simp add: chi_def chi_y_loop_ok)

lemma RC_ok: "rnd < 24 \<Longrightarrow> lane_ok (RC ! rnd)"
proof -
  assume "rnd < 24"
  moreover have "length RC = 24" by (simp add: RC_def)
  ultimately have "RC ! rnd \<in> set RC" by (intro nth_mem) simp
  moreover have "\<forall>c \<in> set RC. lane_ok c" by (simp add: RC_def lane_ok_def)
  ultimately show ?thesis by blast
qed

lemma iota_ok: "lanes_ok st \<Longrightarrow> rnd < 24 \<Longrightarrow> lanes_ok (iota rnd st)"
  unfolding iota_def
  by (intro lanes_ok_update lane_ok_xor lanes_ok_nth RC_ok)

lemma round_states_ok:
  "lanes_ok st \<Longrightarrow> rnd < 24 \<Longrightarrow> \<forall>s \<in> set (round_states rnd st). lanes_ok s"
  by (simp add: round_states_def theta_ok rho_pi_ok chi_ok iota_ok)

lemma keccak_round_ok: "lanes_ok st \<Longrightarrow> rnd < 24 \<Longrightarrow> lanes_ok (keccak_round rnd st)"
  by (simp add: keccak_round_def theta_ok rho_pi_ok chi_ok iota_ok)

lemma keccakF_states_ok:
  "lanes_ok st \<Longrightarrow> \<forall>s \<in> set (keccakF_states rnd st). lanes_ok s"
proof (induction rnd st rule: keccakF_states.induct)
  case (1 rnd st)
  show ?case
  proof (cases "rnd < 24")
    case True
    have "\<forall>s \<in> set (round_states rnd st). lanes_ok s"
      using "1.prems" True by (rule round_states_ok)
    moreover have "\<forall>s \<in> set (keccakF_states (rnd + 1) (keccak_round rnd st)). lanes_ok s"
      using "1.prems" True by (intro "1.IH" keccak_round_ok)
    ultimately show ?thesis
      using True by (subst keccakF_states.simps) auto
  next
    case False
    then show ?thesis by (subst keccakF_states.simps) simp
  qed
qed

lemma keccakF_loop_ok: "lanes_ok st \<Longrightarrow> lanes_ok (keccakF_loop rnd st)"
proof (induction rnd st rule: keccakF_loop.induct)
  case (1 rnd st)
  show ?case
  proof (cases "rnd < 24")
    case True
    with "1.prems" "1.IH" [OF True] show ?thesis
      by (subst keccakF_loop.simps) (simp add: keccak_round_ok)
  next
    case False
    with "1.prems" show ?thesis by (subst keccakF_loop.simps) simp
  qed
qed

lemma keccakF_ok: "lanes_ok st \<Longrightarrow> lanes_ok (keccakF st)"
  by (simp add: keccakF_def keccakF_loop_ok)

lemma keccakF_loop_last: "keccakF_loop rnd st = last (st # keccakF_states rnd st)"
proof (induction rnd st rule: keccakF_loop.induct)
  case (1 rnd st)
  show ?case
  proof (cases "rnd < 24")
    case True
    with "1.IH" [OF True] show ?thesis
      by (subst keccakF_loop.simps, subst keccakF_states.simps)
         (simp add: round_states_def keccak_round_def)
  next
    case False
    then show ?thesis
      by (subst keccakF_loop.simps, subst keccakF_states.simps) simp
  qed
qed


subsection \<open>Absorbing and squeezing\<close>

lemma lane_loop_ok:
  "b \<le> 8 \<Longrightarrow> 0 \<le> lane \<Longrightarrow> lane < 2 ^ (8 * b) \<Longrightarrow> lane_ok (lane_loop b offset i padded lane)"
proof (induction b offset i padded lane rule: lane_loop.induct)
  case (1 b offset i padded lane)
  show ?case
  proof (cases "b < 8")
    case True
    let ?v = "push_bit (b * 8) (uint (padded ! (offset + i * 8 + b)))"
    have "uint (padded ! (offset + i * 8 + b)) < 2 ^ 8"
      using uint_bounded [of "padded ! (offset + i * 8 + b)"] by simp
    then have "?v < 2 ^ (b * 8) * 2 ^ 8"
      by (simp add: push_bit_eq_mult)
    then have v: "?v < 2 ^ (8 * (b + 1))"
      by (simp add: power_add mult.commute)
    have "(2::int) ^ (8 * b) \<le> 2 ^ (8 * (b + 1))"
      by (intro power_increasing) simp_all
    with "1.prems"(3) have l: "lane < 2 ^ (8 * (b + 1))" by linarith
    have "lane OR ?v < 2 ^ (8 * (b + 1))"
      using "1.prems"(2) l v by (rule OR_upper)
    moreover have "0 \<le> lane OR ?v"
      using "1.prems"(2) by simp
    ultimately have "lane_ok (lane_loop (b + 1) offset i padded (lane OR ?v))"
      using True by (intro "1.IH") simp_all
    with True show ?thesis by (subst lane_loop.simps) simp
  next
    case False
    with "1.prems"(1) have "b = 8" by simp
    with "1.prems" show ?thesis
      by (subst lane_loop.simps) (simp add: lane_ok_def)
  qed
qed

lemma absorb_i_loop_ok: "lanes_ok st \<Longrightarrow> lanes_ok (absorb_i_loop i offset padded st)"
proof (induction i offset padded st rule: absorb_i_loop.induct)
  case (1 i offset padded st)
  show ?case
  proof (cases "i < rate div 8")
    case True
    have "lane_ok (lane_loop 0 offset i padded 0)"
      by (rule lane_loop_ok) simp_all
    with "1.prems" have "lanes_ok (st[i := st ! i XOR lane_loop 0 offset i padded 0])"
      by (intro lanes_ok_update lane_ok_xor lanes_ok_nth)
    from "1.IH" [OF True this] True show ?thesis
      by (subst absorb_i_loop.simps) simp
  next
    case False
    with "1.prems" show ?thesis by (subst absorb_i_loop.simps) simp
  qed
qed

lemma absorb_states_ok:
  "lanes_ok st \<Longrightarrow> \<forall>s \<in> set (absorb_states offset padded st). lanes_ok s"
proof (induction offset padded st rule: absorb_states.induct)
  case (1 offset padded st)
  show ?case
  proof (cases "offset < length padded")
    case True
    let ?s = "absorb_i_loop 0 offset padded st"
    have s: "lanes_ok ?s" using "1.prems" by (rule absorb_i_loop_ok)
    then have "\<forall>s \<in> set (keccakF_states 0 ?s). lanes_ok s"
      by (rule keccakF_states_ok)
    moreover have "\<forall>s \<in> set (absorb_states (offset + rate) padded (keccakF ?s)). lanes_ok s"
      using s True by (intro "1.IH" keccakF_ok)
    ultimately show ?thesis
      using s True by (subst absorb_states.simps) auto
  next
    case False
    then show ?thesis by (subst absorb_states.simps) simp
  qed
qed

lemma absorb_loop_last:
  "absorb_loop offset padded st = last (st # absorb_states offset padded st)"
proof (induction offset padded st rule: absorb_loop.induct)
  case (1 offset padded st)
  show ?case
  proof (cases "offset < length padded")
    case True
    let ?s = "absorb_i_loop 0 offset padded st"
    have k: "keccakF ?s = last (?s # keccakF_states 0 ?s)"
      by (simp only: keccakF_def keccakF_loop_last)
    have "absorb_loop offset padded st = absorb_loop (offset + rate) padded (keccakF ?s)"
      using True by (subst absorb_loop.simps) simp
    also have "\<dots> = last (keccakF ?s # absorb_states (offset + rate) padded (keccakF ?s))"
      using True by (rule "1.IH")
    also have "\<dots> = last (st # absorb_states offset padded st)"
      using True k by (subst (2) absorb_states.simps) (simp add: last_append)
    finally show ?thesis .
  next
    case False
    then show ?thesis
      by (subst absorb_loop.simps, subst absorb_states.simps) simp
  qed
qed

lemma absorb_loop_ok: "lanes_ok st \<Longrightarrow> lanes_ok (absorb_loop offset padded st)"
proof -
  assume st: "lanes_ok st"
  have "last (st # absorb_states offset padded st) \<in> set (st # absorb_states offset padded st)"
    by (rule last_in_set) simp
  with st absorb_states_ok [OF st, of offset padded] show ?thesis
    unfolding absorb_loop_last by auto
qed

lemma squeeze_b_loop_length: "length (squeeze_b_loop b i lane out) = length out"
proof (induction b i lane out rule: squeeze_b_loop.induct)
  case (1 b i lane out)
  show ?case
  proof (cases "b < 8")
    case True
    with "1.IH" [OF True] show ?thesis by (subst squeeze_b_loop.simps) simp
  next
    case False
    then show ?thesis by (subst squeeze_b_loop.simps) simp
  qed
qed

lemma squeeze_i_loop_length: "length (squeeze_i_loop i st out) = length out"
proof (induction i st out rule: squeeze_i_loop.induct)
  case (1 i st out)
  show ?case
  proof (cases "i < 4")
    case True
    with "1.IH" [OF True] show ?thesis
      by (subst squeeze_i_loop.simps) (simp add: squeeze_b_loop_length)
  next
    case False
    then show ?thesis by (subst squeeze_i_loop.simps) simp
  qed
qed

lemma length_keccak256: "length (keccak256 input) = 32"
  by (simp add: keccak256_def squeeze_i_loop_length)

lemma keccak256_final_state:
  "keccak256 input =
     squeeze_i_loop 0 (last (replicate 25 0 # keccak256_states input)) (replicate 32 0)"
  by (simp only: keccak256_def keccak256_states_def absorb_loop_last)

text \<open>
  C9.  In every \<open>keccak256\<close> computation each state of the permutation -- after a block
  is absorbed and after each of Theta, Rho+Pi, Chi and Iota of each of the 24 rounds --
  consists of 25 lanes that are non-negative and below \<open>2^64\<close>; the states listed are
  those of the computation (the digest is squeezed from the last one); the value Chi
  stores is in range although the complement it is computed from is negative; and
  \<open>keccak256\<close> returns exactly 32 bytes, each between 0 and 255.
\<close>

theorem keccak256_lanes_in_range:
  "(\<forall>s \<in> set (keccak256_states input). lanes_ok s)
   \<and> keccak256 input =
       squeeze_i_loop 0 (last (replicate 25 0 # keccak256_states input)) (replicate 32 0)
   \<and> (\<forall>a b c. lane_ok a \<and> lane_ok b \<and> lane_ok c
         \<longrightarrow> NOT b < 0 \<and> lane_ok (a XOR (NOT b AND c)))
   \<and> length (keccak256 input) = 32
   \<and> (\<forall>b \<in> set (keccak256 input). 0 \<le> uint b \<and> uint b \<le> 255)"
proof -
  have 1: "\<forall>s \<in> set (keccak256_states input). lanes_ok s"
    unfolding keccak256_states_def by (rule absorb_states_ok) (rule lanes_ok_zero)
  have 2: "\<forall>a b c. lane_ok a \<and> lane_ok b \<and> lane_ok c
             \<longrightarrow> NOT b < 0 \<and> lane_ok (a XOR (NOT b AND c))"
    using lane_ok_chi not_lane_negative by blast
  have 3: "\<forall>b \<in> set (keccak256 input). 0 \<le> uint b \<and> uint b \<le> 255"
  proof
    fix b :: byte
    have "uint b < 2 ^ 8" using uint_bounded [of b] by simp
    then show "0 \<le> uint b \<and> uint b \<le> 255" by simp
  qed
  from 1 keccak256_final_state [of input] 2 length_keccak256 [of input] 3
  show ?thesis by (intro conjI)
qed


theorem keccak256_lanes_in_range_witness:
  "lanes_ok (absorb_i_loop 0 0 (pad []) (replicate 25 0))
   \<and> (lane_ok 3 \<and> lane_ok 5 \<and> lane_ok 6) \<and> NOT (5::int) < 0 \<and> lane_ok (3 XOR (NOT 5 AND 6))
   \<and> length (keccak256 []) = 32
   \<and> 0 \<le> uint (keccak256 [] ! 0) \<and> uint (keccak256 [] ! 0) \<le> 255"
proof -
  have len: "length (pad []) = 136"
    by (simp add: length_pad padded_length_eq)
  have m1: "absorb_i_loop 0 0 (pad []) (replicate 25 0) \<in> set (keccak256_states [])"
    unfolding keccak256_states_def
    by (subst absorb_states.simps) (simp add: len)
  have l: "lane_ok 3 \<and> lane_ok 5 \<and> lane_ok 6"
    by (simp add: lane_ok_def)
  have l32: "length (keccak256 []) = 32"
    using keccak256_lanes_in_range [of "[]"] by blast
  then have m2: "keccak256 [] ! 0 \<in> set (keccak256 [])"
    by (intro nth_mem) simp
  from m1 m2 l show ?thesis
    using keccak256_lanes_in_range [of "[]"] by blast
qed

section \<open>Checksum casing\<close>

lemma unat_byte_less: "unat (b :: byte) < 256"
  using unsigned_less [of b, where ?'a = nat] by simp

lemma toString16_small: "n < 16 \<Longrightarrow> toString16 n = [hex_digit n]"
  by (subst toString16.simps) simp

lemma toString16_two:
  assumes "16 \<le> n" "n < 256"
  shows "toString16 n = [hex_digit (n div 16), hex_digit (n mod 16)]"
proof -
  from assms have "n div 16 < 16" by simp
  then have "toString16 (n div 16) = [hex_digit (n div 16)]" by (rule toString16_small)
  with assms show ?thesis by (subst toString16.simps) simp
qed

lemma byte_hex_eq: "byte_hex b = [hex_digit (unat b div 16), hex_digit (unat b mod 16)]"
proof -
  have lt: "unat b < 256" by (rule unat_byte_less)
  show ?thesis
  proof (cases "unat b < 16")
    case True
    then show ?thesis
      by (simp add: byte_hex_def padStart_def toString16_small hex_digit_def)
  next
    case False
    with lt show ?thesis
      by (simp add: byte_hex_def padStart_def toString16_two)
  qed
qed

lemma bytes_hex_Nil: "bytes_hex [] = []"
  by (simp add: bytes_hex_def)

lemma bytes_hex_Cons:
  "bytes_hex (b # bs) = hex_digit (unat b div 16) # hex_digit (unat b mod 16) # bytes_hex bs"
  by (simp add: bytes_hex_def byte_hex_eq)

lemma length_bytes_hex: "length (bytes_hex bs) = 2 * length bs"
  by (induction bs) (simp_all add: bytes_hex_Nil bytes_hex_Cons)

lemma nth_bytes_hex:
  "i < 2 * length bs \<Longrightarrow>
   bytes_hex bs ! i =
     hex_digit (if even i then unat (bs ! (i div 2)) div 16 else unat (bs ! (i div 2)) mod 16)"
proof (induction bs arbitrary: i)
  case Nil
  then show ?case by simp
next
  case (Cons b bs)
  consider "i = 0" | "i = 1" | "2 \<le> i" by linarith
  then show ?case
  proof cases
    case 1
    then show ?thesis by (simp add: bytes_hex_Cons)
  next
    case 2
    then show ?thesis by (simp add: bytes_hex_Cons)
  next
    case 3
    then obtain j where j: "i = j + 2" using le_Suc_ex by (metis add.commute)
    with Cons.prems have "j < 2 * length bs" by simp
    from Cons.IH [OF this] j show ?thesis
      by (simp add: bytes_hex_Cons)
  qed
qed

lemma nth_bytes_hex_nibble:
  "i < 2 * length digest \<Longrightarrow> bytes_hex digest ! i = hex_digit (digest_nibble digest i)"
  by (simp add: nth_bytes_hex digest_nibble_def)

lemma digest_nibble_less: "digest_nibble digest i < 16"
proof -
  have "unat (digest ! (i div 2)) < 256" by (rule unat_byte_less)
  then have "unat (digest ! (i div 2)) div 16 < 16" "unat (digest ! (i div 2)) mod 16 < 16"
    by simp_all
  then show ?thesis by (simp add: digest_nibble_def)
qed

lemma less_16_cases:
  "d < 16 \<Longrightarrow> d = 0 \<or> d = 1 \<or> d = 2 \<or> d = 3 \<or> d = 4 \<or> d = 5 \<or> d = 6 \<or> d = 7 \<or> d = 8
     \<or> d = 9 \<or> d = 10 \<or> d = 11 \<or> d = 12 \<or> d = 13 \<or> d = 14 \<or> d = (15::nat)"
  by arith

lemma parseInt16_hex_digit: "d < 16 \<Longrightarrow> parseInt16 (Some (hex_digit d)) = Some d"
  using less_16_cases [of d] by (auto simp: parseInt16_def hex_digit_def)

lemma hex_digit_lower: "d < 16 \<Longrightarrow> hex_digit d \<in> set ''0123456789abcdef''"
  using less_16_cases [of d] by (auto simp: hex_digit_def)

lemma set_bytes_hex: "set (bytes_hex bs) \<subseteq> set ''0123456789abcdef''"
proof (induction bs)
  case Nil
  then show ?case by (simp add: bytes_hex_Nil)
next
  case (Cons b bs)
  have "unat b < 256" by (rule unat_byte_less)
  then have "unat b div 16 < 16" "unat b mod 16 < 16" by simp_all
  then have "hex_digit (unat b div 16) \<in> set ''0123456789abcdef''"
            "hex_digit (unat b mod 16) \<in> set ''0123456789abcdef''"
    by (simp_all only: hex_digit_lower)
  with Cons show ?case by (simp only: bytes_hex_Cons set_simps insert_subset)
qed


lemma ge8_nibble:
  "i < 2 * length digest \<Longrightarrow>
   ge8 (parseInt16 (char_at (bytes_hex digest) i)) \<longleftrightarrow> 8 \<le> digest_nibble digest i"
  by (simp add: char_at_def length_bytes_hex nth_bytes_hex_nibble parseInt16_hex_digit
        digest_nibble_less ge8_def)

lemma checksum_loop_eq:
  assumes "length hex = 40" "40 \<le> 2 * length digest"
  shows "40 - i = n \<Longrightarrow> i \<le> 40 \<Longrightarrow>
         checksum_loop i hex (bytes_hex digest) acc =
           Inr (acc @ map (\<lambda>k. if 8 \<le> digest_nibble digest k then toUpperCase (hex ! k)
                                   else hex ! k) [i..<40])"
proof (induction n arbitrary: i acc)
  case 0
  then show ?case by (subst checksum_loop.simps) simp
next
  case (Suc n)
  then have lt: "i < 40" by simp
  with assms(2) have g: "ge8 (parseInt16 (char_at (bytes_hex digest) i))
                           \<longleftrightarrow> 8 \<le> digest_nibble digest i"
    by (intro ge8_nibble) simp
  from lt assms(1) have c: "char_at hex i = Some (hex ! i)"
    by (simp add: char_at_def)
  from lt have u: "[i..<40] = i # [Suc i..<40]"
    by (simp add: upt_conv_Cons)
  have n: "40 - Suc i = n" "Suc i \<le> 40" using Suc.prems by simp_all
  show ?case
    by (subst checksum_loop.simps) (simp add: lt g c u Suc.IH [OF n])
qed

lemma toChecksumAddress_eq:
  assumes "length bytes = 20"
  shows "toChecksumAddress bytes =
           Inr (''0x'' @ spec_casing (bytes_hex bytes)
                           (keccak256 (text_encode (bytes_hex bytes))))"
proof -
  have "length (bytes_hex bytes) = 40" using assms by (simp add: length_bytes_hex)
  moreover have "40 \<le> 2 * length (keccak256 (text_encode (bytes_hex bytes)))"
    by (simp add: length_keccak256)
  ultimately show ?thesis
    unfolding toChecksumAddress_def Let_def spec_casing_def
    by (intro checksum_loop_eq [where n = 40]) simp_all
qed

section \<open>Doubles\<close>

subsection \<open>Numbers that rounding leaves alone\<close>

lemma rne_of_int: "rne (of_int k) = k"
  by (simp add: rne_def)

lemma round_double_zero: "round_double 0 = 0"
  by (simp add: round_double_def)

lemma round_double_scaled:
  assumes N: "\<bar>x\<bar> * 2 ^ 1074 = of_int N" and dvd: "(2::int) ^ nat (bitlen N - 53) dvd N"
  shows "round_double x = x"
proof -
  let ?c = "nat (bitlen N - 53)"
  from dvd obtain k where k: "N = 2 ^ ?c * k" by (auto simp: dvd_def)
  have fl: "\<lfloor>\<bar>x\<bar> * 2 ^ 1074\<rfloor> = N" unfolding N by simp
  have "(of_int N :: real) = 2 ^ ?c * of_int k" by (subst k) simp
  then have q: "(of_int N :: real) / 2 ^ ?c = of_int k" by simp
  have "round_double x = sgn x * (of_int (rne (of_int N / 2 ^ ?c)) * 2 ^ ?c / 2 ^ 1074)"
    unfolding round_double_def round_units_def Let_def fl unfolding N ..
  also have "\<dots> = sgn x * (of_int k * 2 ^ ?c / 2 ^ 1074)"
    unfolding q rne_of_int ..
  also have "of_int k * 2 ^ ?c = (of_int N :: real)" by (subst (2) k) simp
  also have "(of_int N :: real) / 2 ^ 1074 = \<bar>x\<bar>" unfolding N [symmetric] by simp
  also have "sgn x * \<bar>x\<bar> = x" by (simp add: sgn_if)
  finally show ?thesis .
qed

lemma round_double_exact:
  assumes m: "\<bar>m\<bar> < 2 ^ 53" and j: "j \<le> 1074"
  shows "round_double (of_int m * 2 ^ a / 2 ^ j) = of_int m * 2 ^ a / 2 ^ j"
proof (cases "m = 0")
  case True
  then show ?thesis by (simp add: round_double_zero)
next
  case False
  let ?e = "a + (1074 - j)"
  let ?N = "\<bar>m\<bar> * 2 ^ ?e"
  have pos: "0 < \<bar>m\<bar>" using False by simp
  have p: "(2::real) ^ 1074 = 2 ^ j * 2 ^ (1074 - j)"
    by (simp only: power_add [symmetric] le_add_diff_inverse [OF j])
  have N: "\<bar>of_int m * 2 ^ a / 2 ^ j :: real\<bar> * 2 ^ 1074 = of_int ?N"
    unfolding p by (simp add: abs_mult power_add)
  have "bitlen \<bar>m\<bar> \<le> 53" using m by (simp add: bitlen_le_iff_power)
  moreover have "bitlen ?N = bitlen \<bar>m\<bar> + int ?e" using pos by (rule bitlen_pow2)
  ultimately have "nat (bitlen ?N - 53) \<le> ?e" by simp
  then have "(2::int) ^ nat (bitlen ?N - 53) dvd 2 ^ ?e" by (rule le_imp_power_dvd)
  then have "(2::int) ^ nat (bitlen ?N - 53) dvd ?N" by (rule dvd_mult)
  with N show ?thesis by (rule round_double_scaled)
qed


lemma fl_finite: "\<bar>x\<bar> < 2 ^ 1024 - 2 ^ 970 \<Longrightarrow> fl x = Num (round_double x)"
  unfolding fl_def by (simp add: abs_less_iff not_le)




subsection \<open>Rounding is monotone\<close>

lemma rne_bounds: "\<lfloor>y\<rfloor> \<le> rne y \<and> rne y \<le> \<lfloor>y\<rfloor> + 1"
  by (simp add: rne_def Let_def)

lemma rne_mono:
  assumes "x \<le> y"
  shows "rne x \<le> rne y"
proof (cases "\<lfloor>x\<rfloor> < \<lfloor>y\<rfloor>")
  case True
  have "rne x \<le> \<lfloor>x\<rfloor> + 1" using rne_bounds [of x] by simp
  also have "\<dots> \<le> \<lfloor>y\<rfloor>" using True by simp
  also have "\<dots> \<le> rne y" using rne_bounds [of y] by simp
  finally show ?thesis .
next
  case False
  moreover have "\<lfloor>x\<rfloor> \<le> \<lfloor>y\<rfloor>" using assms by (rule floor_mono)
  ultimately have f: "\<lfloor>y\<rfloor> = \<lfloor>x\<rfloor>" by simp
  have "x - of_int \<lfloor>x\<rfloor> \<le> y - of_int \<lfloor>x\<rfloor>" using assms by simp
  then show ?thesis unfolding rne_def Let_def f by auto
qed

lemma rne_le_int: "y \<le> of_int m \<Longrightarrow> rne y \<le> m"
  using rne_mono [of y "of_int m"] by (simp add: rne_of_int)

lemma rne_ge_int: "of_int m \<le> y \<Longrightarrow> m \<le> rne y"
  using rne_mono [of "of_int m" y] by (simp add: rne_of_int)

lemma bitlen_mono:
  assumes "0 \<le> a" "a \<le> b"
  shows "bitlen a \<le> bitlen b"
proof (cases "b = 0")
  case True
  with assms show ?thesis by simp
next
  case False
  with assms have "0 < b" by simp
  from bitlen_bounds [OF this] have "b < 2 ^ nat (bitlen b)" by (rule conjunct2)
  with assms(2) have "a < 2 ^ nat (bitlen b)" by simp
  then show ?thesis using bitlen_nonneg [of b] by (simp add: bitlen_le_iff_power)
qed

lemma round_units_nonneg:
  assumes "0 \<le> y"
  shows "0 \<le> round_units y"
proof -
  let ?q = "2 ^ nat (bitlen \<lfloor>y\<rfloor> - 53) :: real"
  have "of_int 0 \<le> y / ?q" using assms by simp
  then have "0 \<le> rne (y / ?q)" by (rule rne_ge_int)
  then show ?thesis unfolding round_units_def Let_def by simp
qed

lemma round_units_upper:
  assumes "0 \<le> y"
  shows "round_units y \<le> 2 ^ nat (bitlen \<lfloor>y\<rfloor>)"
proof -
  let ?b = "nat (bitlen \<lfloor>y\<rfloor>)" and ?c = "nat (bitlen \<lfloor>y\<rfloor> - 53)"
  have c: "?c \<le> ?b" by simp
  have N: "0 \<le> \<lfloor>y\<rfloor>" using assms by simp
  have "\<lfloor>y\<rfloor> < 2 ^ ?b"
  proof (cases "\<lfloor>y\<rfloor> = 0")
    case True
    then show ?thesis by simp
  next
    case False
    with N have "0 < \<lfloor>y\<rfloor>" by linarith
    from bitlen_bounds [OF this] show ?thesis by (rule conjunct2)
  qed
  then have le: "\<lfloor>y\<rfloor> + 1 \<le> 2 ^ ?b" by linarith
  have "y \<le> of_int (\<lfloor>y\<rfloor> + 1)" by linarith
  also have "\<dots> \<le> of_int (2 ^ ?b)" using le by (simp only: of_int_le_iff)
  also have "\<dots> = 2 ^ ?b" by simp
  finally have y: "y \<le> 2 ^ ?b" .
  have split: "(2::real) ^ ?b = 2 ^ (?b - ?c) * 2 ^ ?c"
    using c by (simp add: power_add [symmetric])
  have "y / 2 ^ ?c \<le> 2 ^ ?b / 2 ^ ?c" using y by (simp add: divide_right_mono)
  also have "\<dots> = of_int (2 ^ (?b - ?c))" unfolding split by simp
  finally have "rne (y / 2 ^ ?c) \<le> 2 ^ (?b - ?c)" by (rule rne_le_int)
  then have "(of_int (rne (y / 2 ^ ?c)) :: real) \<le> of_int (2 ^ (?b - ?c))"
    by (simp only: of_int_le_iff)
  then have "(of_int (rne (y / 2 ^ ?c)) :: real) * 2 ^ ?c \<le> 2 ^ (?b - ?c) * 2 ^ ?c"
    by (simp add: mult_right_mono)
  then show ?thesis unfolding round_units_def Let_def split .
qed

lemma round_units_lower:
  assumes "0 \<le> y" and "53 < bitlen \<lfloor>y\<rfloor>"
  shows "2 ^ nat (bitlen \<lfloor>y\<rfloor> - 1) \<le> round_units y"
proof -
  let ?b = "nat (bitlen \<lfloor>y\<rfloor> - 1)" and ?c = "nat (bitlen \<lfloor>y\<rfloor> - 53)"
  have c: "?c \<le> ?b" by simp
  have "\<lfloor>y\<rfloor> \<noteq> 0" using assms(2) by auto
  moreover have "0 \<le> \<lfloor>y\<rfloor>" using assms(1) by simp
  ultimately have "0 < \<lfloor>y\<rfloor>" by linarith
  from bitlen_bounds [OF this] have le: "2 ^ ?b \<le> \<lfloor>y\<rfloor>" by (rule conjunct1)
  have "(2::real) ^ ?b = of_int (2 ^ ?b)" by simp
  also have "\<dots> \<le> of_int \<lfloor>y\<rfloor>" using le by (simp only: of_int_le_iff)
  also have "\<dots> \<le> y" by (rule of_int_floor_le)
  finally have y: "2 ^ ?b \<le> y" .
  have split: "(2::real) ^ ?b = 2 ^ (?b - ?c) * 2 ^ ?c"
    using c by (simp add: power_add [symmetric])
  have "of_int (2 ^ (?b - ?c)) = (2::real) ^ ?b / 2 ^ ?c" unfolding split by simp
  also have "\<dots> \<le> y / 2 ^ ?c" using y by (simp add: divide_right_mono)
  finally have "2 ^ (?b - ?c) \<le> rne (y / 2 ^ ?c)" by (rule rne_ge_int)
  then have "(of_int (2 ^ (?b - ?c)) :: real) \<le> of_int (rne (y / 2 ^ ?c))"
    by (simp only: of_int_le_iff)
  then have "(2::real) ^ (?b - ?c) * 2 ^ ?c \<le> of_int (rne (y / 2 ^ ?c)) * 2 ^ ?c"
    by (simp add: mult_right_mono)
  then show ?thesis unfolding round_units_def Let_def split .
qed

lemma round_units_mono:
  assumes "0 \<le> x" and "x \<le> y"
  shows "round_units x \<le> round_units y"
proof -
  let ?cx = "nat (bitlen \<lfloor>x\<rfloor> - 53)" and ?cy = "nat (bitlen \<lfloor>y\<rfloor> - 53)"
  have y: "0 \<le> y" using assms by simp
  have "0 \<le> \<lfloor>x\<rfloor>" "\<lfloor>x\<rfloor> \<le> \<lfloor>y\<rfloor>" using assms by (simp_all add: floor_mono)
  then have b: "bitlen \<lfloor>x\<rfloor> \<le> bitlen \<lfloor>y\<rfloor>" by (rule bitlen_mono)
  show ?thesis
  proof (cases "?cx = ?cy")
    case True
    have "x / 2 ^ ?cy \<le> y / 2 ^ ?cy" using assms(2) by (simp add: divide_right_mono)
    then have "rne (x / 2 ^ ?cy) \<le> rne (y / 2 ^ ?cy)" by (rule rne_mono)
    then have "(of_int (rne (x / 2 ^ ?cy)) :: real) \<le> of_int (rne (y / 2 ^ ?cy))"
      by (simp only: of_int_le_iff)
    then have "(of_int (rne (x / 2 ^ ?cy)) :: real) * 2 ^ ?cy \<le> of_int (rne (y / 2 ^ ?cy)) * 2 ^ ?cy"
      by (simp add: mult_right_mono)
    then show ?thesis unfolding round_units_def Let_def True .
  next
    case False
    with b have lt: "bitlen \<lfloor>x\<rfloor> < bitlen \<lfloor>y\<rfloor>" and big: "53 < bitlen \<lfloor>y\<rfloor>"
      by (cases "bitlen \<lfloor>x\<rfloor> = bitlen \<lfloor>y\<rfloor>"; simp)+
    have "round_units x \<le> 2 ^ nat (bitlen \<lfloor>x\<rfloor>)" using assms(1) by (rule round_units_upper)
    also have "(2::real) ^ nat (bitlen \<lfloor>x\<rfloor>) \<le> 2 ^ nat (bitlen \<lfloor>y\<rfloor> - 1)"
      using lt by (intro power_increasing) simp_all
    also have "\<dots> \<le> round_units y" using y big by (rule round_units_lower)
    finally show ?thesis .
  qed
qed

lemma round_double_nonneg: "0 \<le> x \<Longrightarrow> 0 \<le> round_double x"
  unfolding round_double_def
  by (intro mult_nonneg_nonneg divide_nonneg_nonneg round_units_nonneg) (simp_all add: sgn_if)

lemma round_double_minus: "round_double (- x) = - round_double x"
  unfolding round_double_def by (simp add: sgn_minus)

lemma round_double_mono:
  assumes "x \<le> y"
  shows "round_double x \<le> round_double y"
proof -
  have pos: "round_double a \<le> round_double b" if "0 \<le> a" "a \<le> b" for a b
  proof (cases "a = 0")
    case True
    with that round_double_nonneg [of b] show ?thesis by (simp add: round_double_zero)
  next
    case False
    with that have a: "0 < a" "0 < b" by simp_all
    have "round_units (\<bar>a\<bar> * 2 ^ 1074) \<le> round_units (\<bar>b\<bar> * 2 ^ 1074)"
      using that by (intro round_units_mono mult_right_mono) simp_all
    then have "round_units (\<bar>a\<bar> * 2 ^ 1074) / 2 ^ 1074 \<le> round_units (\<bar>b\<bar> * 2 ^ 1074) / 2 ^ 1074"
      by (rule divide_right_mono) simp
    then show ?thesis unfolding round_double_def using a by (simp only: sgn_pos mult_1)
  qed
  consider (pp) "0 \<le> x" | (np) "x < 0" "0 \<le> y" | (nn) "x < 0" "y < 0" by linarith
  then show ?thesis
  proof cases
    case pp
    then show ?thesis using assms by (rule pos)
  next
    case np
    have "0 \<le> round_double (- x)" using np(1) by (intro round_double_nonneg) simp
    then have "round_double x \<le> 0" by (simp add: round_double_minus)
    also have "0 \<le> round_double y" using np(2) by (rule round_double_nonneg)
    finally show ?thesis .
  next
    case nn
    have "round_double (- y) \<le> round_double (- x)" using nn assms by (intro pos) simp_all
    then show ?thesis by (simp add: round_double_minus)
  qed
qed

text \<open>Within a bound that is a double, rounding gives a finite number within the bound.\<close>

lemma fl_bounded:
  assumes x: "\<bar>x\<bar> \<le> of_int m" and m: "\<bar>m\<bar> < 2 ^ 53"
  shows "\<exists>r. fl x = Num r \<and> \<bar>r\<bar> \<le> of_int m"
proof -
  have e: "round_double (of_int m) = of_int m" "round_double (- of_int m) = - of_int m"
    using round_double_exact [of m 0 0] round_double_exact [of "- m" 0 0] m by simp_all
  have "(of_int m :: real) \<le> \<bar>of_int m\<bar>" by simp
  also have "\<dots> < 2 ^ 53" using m by (simp flip: of_int_abs add: of_int_less_iff [symmetric] del: of_int_less_iff)
  also have "(2::real) ^ 53 \<le> 2 ^ 1024 - 2 ^ 970" by simp
  finally have "\<bar>x\<bar> < 2 ^ 1024 - 2 ^ 970" using x by simp
  then have "fl x = Num (round_double x)" by (rule fl_finite)
  moreover have "round_double x \<le> of_int m"
    using round_double_mono [of x "of_int m"] x e by simp
  moreover have "- of_int m \<le> round_double x"
    using round_double_mono [of "- of_int m" x] x e by simp
  ultimately show ?thesis by (simp add: abs_le_iff)
qed

lemma fl_mono:
  assumes "x \<le> y"
  shows "js_le (fl x) (fl y)"
  using assms round_double_mono [OF assms] unfolding fl_def by simp



section \<open>The engine's mixing step on 32-bit words\<close>

lemma toInt32_sint: "toInt32 x = sint (word_of_int x :: 32 word)"
  by (simp add: toInt32_def sint_sbintrunc' signed_take_bit_eq_take_bit_shift take_bit_eq_mod)

lemma toUint32_uint: "toUint32 x = uint (word_of_int x :: 32 word)"
  by (simp add: toUint32_def uint_word_of_int)

lemma word_of_toInt32: "(word_of_int (toInt32 x) :: 32 word) = word_of_int x"
  by (simp add: toInt32_sint)

lemma word_of_toUint32: "(word_of_int (toUint32 x) :: 32 word) = word_of_int x"
  by (simp add: toUint32_uint)

lemma js_or_word: "js_or a b = sint ((word_of_int a :: 32 word) OR word_of_int b)"
  by (simp add: js_or_def toInt32_sint signed_or_eq)

lemma js_xor_word: "js_xor a b = sint ((word_of_int a :: 32 word) XOR word_of_int b)"
  by (simp add: js_xor_def toInt32_sint signed_xor_eq)

lemma js_ushr_word:
  "n < 32 \<Longrightarrow> js_ushr a n = uint (drop_bit n (word_of_int a :: 32 word))"
  by (simp add: js_ushr_def toUint32_uint unsigned_drop_bit_eq take_bit_eq_mod uint_word_of_int)

lemma Math_imul_word: "Math_imul a b = sint ((word_of_int a :: 32 word) * word_of_int b)"
  by (simp add: Math_imul_def toInt32_sint toUint32_uint)

lemma prng_next_word:
  "prng_next g =
     (of_int (uint (mulberry32_word (word_of_int (state g)))) / 4294967296,
      g\<lparr>state := sint (word_of_int (state g) + 0x6D2B79F5 :: 32 word)\<rparr>)"
proof -
  let ?r = "word_of_int (state g) :: 32 word"
  let ?s = "?r + 0x6D2B79F5"
  let ?t = "(?s XOR drop_bit 15 ?s) * (1 OR ?s)"
  let ?t' = "(?t + (?t XOR drop_bit 7 ?t) * (61 OR ?t)) XOR ?t"
  have s0: "js_or (state g) 0 = sint ?r"
    by (simp add: js_or_word)
  have s1: "js_or (sint ?r + 0x6d2b79f5) 0 = sint ?s"
    by (simp add: js_or_word)
  have t1: "Math_imul (js_xor (sint ?s) (js_ushr (sint ?s) 15)) (js_or 1 (sint ?s)) = sint ?t"
    by (simp add: Math_imul_word js_xor_word js_ushr_word js_or_word)
  have t2: "js_xor (sint ?t + Math_imul (js_xor (sint ?t) (js_ushr (sint ?t) 7)) (js_or 61 (sint ?t)))
              (sint ?t) = sint ?t'"
    by (simp add: Math_imul_word js_xor_word js_ushr_word js_or_word)
  have k: "js_ushr (js_xor (sint ?t') (js_ushr (sint ?t') 14)) 0 = uint (?t' XOR drop_bit 14 ?t')"
    by (simp add: js_xor_word js_ushr_word)
  show ?thesis
    unfolding prng_next_def Let_def s0 s1 t1 t2 k mulberry32_word_def ..
qed

lemma prng_next_snd: "snd (prng_next g) = g\<lparr>state := sint (word_of_int (state g) + 0x6D2B79F5 :: 32 word)\<rparr>"
  by (simp add: prng_next_word)

lemma prng_next_fst:
  "fst (prng_next g) = real (unat (mulberry32_word (word_of_int (state g)))) / 2 ^ 32"
  by (simp add: prng_next_word)

lemma unat32_less: "unat (w :: 32 word) < 2 ^ 32"
  using unsigned_less [of w, where ?'a = nat] by simp

lemma prng_next_range: "0 \<le> fst (prng_next g) \<and> fst (prng_next g) < 1"
proof -
  let ?k = "unat (mulberry32_word (word_of_int (state g)))"
  have "?k < 2 ^ 32" by (rule unat32_less)
  then have "real ?k < real (2 ^ 32)" by (rule less_imp_of_nat_less)
  then have "real ?k / 2 ^ 32 < 1" by simp
  moreover have "0 \<le> real ?k / 2 ^ 32" by (intro divide_nonneg_pos of_nat_0_le_iff) simp
  ultimately show ?thesis by (simp only: prng_next_fst)
qed

text \<open>
  C3.  For every register value, \<open>next()\<close> returns \<open>k / 2^32\<close> for a natural number
  \<open>k < 2^32\<close>, a value in \<open>[0, 1)\<close>; \<open>k\<close> is the unsigned reading of the result of the
  Mulberry32 formula computed on 32-bit words (every addition and multiplication
  wrapping) from the register read as a 32-bit two's-complement integer, and the new
  register is the old one plus \<open>0x6D2B79F5\<close>, wrapped and read as a signed integer.
\<close>

theorem prng_next_mulberry32:
  "fst (prng_next g) = real (unat (mulberry32_word (word_of_int (state g)))) / 2 ^ 32
   \<and> unat (mulberry32_word (word_of_int (state g))) < 2 ^ 32
   \<and> 0 \<le> fst (prng_next g) \<and> fst (prng_next g) < 1
   \<and> state (snd (prng_next g)) = sint (word_of_int (state g) + 0x6D2B79F5 :: 32 word)"
  using prng_next_fst [of g] prng_next_range [of g]
    unat32_less [of "mulberry32_word (word_of_int (state g))"]
  by (simp add: prng_next_snd)

subsection \<open>Draws at given registers\<close>

lemma prng_next_0:
  "prng_next \<lparr>state = 0\<rparr> = (572152369 / 2147483648, \<lparr>state = 1831565813\<rparr>)"
  by code_simp


section \<open>Integer ranges and choice\<close>

lemma prng_int_eq:
  "prng_int mn mx g = (\<lfloor>fst (prng_next g) * of_int (mx - mn + 1)\<rfloor> + mn, snd (prng_next g))"
  by (simp add: prng_int_def split_beta)

lemma floor_scaled_range:
  fixes u :: real and n :: int
  assumes "0 \<le> u" "u < 1" "1 \<le> n"
  shows "0 \<le> \<lfloor>u * of_int n\<rfloor> \<and> \<lfloor>u * of_int n\<rfloor> \<le> n - 1"
proof -
  have n: "0 < (of_int n :: real)" using assms(3) by simp
  have "0 \<le> u * of_int n" using assms(1) n by simp
  then have lo: "0 \<le> \<lfloor>u * of_int n\<rfloor>" by simp
  have "u * of_int n < 1 * of_int n" using assms(2) n by (intro mult_strict_right_mono)
  then have "u * of_int n < of_int n" by simp
  then have "\<lfloor>u * of_int n\<rfloor> < n" by (simp add: floor_less_iff)
  with lo show ?thesis by simp
qed

lemma prng_int_range:
  assumes "mn \<le> mx"
  shows "mn \<le> fst (prng_int mn mx g) \<and> fst (prng_int mn mx g) \<le> mx"
proof -
  have "0 \<le> \<lfloor>fst (prng_next g) * of_int (mx - mn + 1)\<rfloor>
        \<and> \<lfloor>fst (prng_next g) * of_int (mx - mn + 1)\<rfloor> \<le> (mx - mn + 1) - 1"
    using prng_next_range [of g] assms by (intro floor_scaled_range) simp_all
  then show ?thesis by (simp add: prng_int_eq)
qed

lemma prng_next_state_zero: "snd (prng_next \<lparr>state = 0\<rparr>) = \<lparr>state = 1831565813\<rparr>"
  by (simp add: prng_next_snd)

lemma prng_int_empty: "fst (prng_int 0 (- 1) g) = 0"
  by (simp add: prng_int_eq)

lemma prng_pick_eq:
  "prng_pick arr g = Inr (js_get arr (fst (prng_int 0 (int (length arr) - 1) g)), snd (prng_next g))"
  by (simp add: prng_pick_def prng_int_eq)

text \<open>
  C4 (amended).  \<open>pick(items)\<close> never fails.  For every non-empty sequence it returns
  \<open>items[int(0, len-1)]\<close>, an element of the sequence; for the empty sequence it
  returns \<open>undefined\<close>.  In both cases the engine makes one \<open>next()\<close> draw.
\<close>

theorem prng_pick_total:
  "prng_pick arr g = Inr (js_get arr (fst (prng_int 0 (int (length arr) - 1) g)), snd (prng_next g))
   \<and> (arr \<noteq> [] \<longrightarrow>
        0 \<le> fst (prng_int 0 (int (length arr) - 1) g)
        \<and> fst (prng_int 0 (int (length arr) - 1) g) < int (length arr)
        \<and> prng_pick arr g =
            Inr (arr ! nat (fst (prng_int 0 (int (length arr) - 1) g)), snd (prng_next g)))
   \<and> (arr = [] \<longrightarrow> prng_pick arr g = Inr (None, snd (prng_next g)))"
proof -
  have "arr \<noteq> [] \<longrightarrow>
        0 \<le> fst (prng_int 0 (int (length arr) - 1) g)
        \<and> fst (prng_int 0 (int (length arr) - 1) g) < int (length arr)
        \<and> prng_pick arr g =
            Inr (arr ! nat (fst (prng_int 0 (int (length arr) - 1) g)), snd (prng_next g))"
  proof
    assume "arr \<noteq> []"
    then have "(0::int) \<le> int (length arr) - 1" by (cases arr) simp_all
    from prng_int_range [OF this, of g]
    show "0 \<le> fst (prng_int 0 (int (length arr) - 1) g)
          \<and> fst (prng_int 0 (int (length arr) - 1) g) < int (length arr)
          \<and> prng_pick arr g =
              Inr (arr ! nat (fst (prng_int 0 (int (length arr) - 1) g)), snd (prng_next g))"
      by (simp add: prng_pick_eq js_get_def)
  qed
  moreover have "arr = [] \<longrightarrow> prng_pick arr g = Inr (None, snd (prng_next g))"
    by (simp add: prng_pick_eq js_get_def prng_int_empty)
  ultimately show ?thesis using prng_pick_eq [of arr g] by blast
qed

theorem prng_pick_total_witness:
  "[Some (7::nat), Some 8, Some 9] \<noteq> []
   \<and> fst (prng_int 0 (int (length [Some (7::nat), Some 8, Some 9]) - 1) \<lparr>state = 0\<rparr>)
        < int (length [Some (7::nat), Some 8, Some 9])
   \<and> prng_pick ([] :: nat option list) \<lparr>state = 0\<rparr> = Inr (None, \<lparr>state = 1831565813\<rparr>)"
  using prng_pick_total [of "[Some (7::nat), Some 8, Some 9]" "\<lparr>state = 0\<rparr>"]
    prng_pick_total [of "[] :: nat option list" "\<lparr>state = 0\<rparr>"]
  by (simp add: prng_next_state_zero js_get_def prng_int_empty)

text \<open>
  C4 as stated fails: on the empty sequence \<open>pick\<close> does not fail with an
  \<open>EmptyInputError\<close>; it returns \<open>undefined\<close> and the register has advanced.
\<close>

theorem prng_pick_empty_counterexample:
  "prng_pick ([] :: nat option list) \<lparr>state = 0\<rparr> = Inr (None, \<lparr>state = 1831565813\<rparr>)
   \<and> prng_pick ([] :: nat option list) \<lparr>state = 0\<rparr> \<noteq> Inl EmptyInputError"
  by (simp add: prng_pick_eq js_get_def prng_next_state_zero prng_int_empty)

section \<open>The power-law sampler\<close>

lemma prng_powerLaw_eq:
  "prng_powerLaw mn mx alpha g =
     Inr ((mn powr (1 - alpha) + fst (prng_next g) * (mx powr (1 - alpha) - mn powr (1 - alpha)))
            powr (1 / (1 - alpha)),
          snd (prng_next g))"
  by (simp add: prng_powerLaw_def Let_def split_beta)

text \<open>
  C5 (amended).  \<open>powerLaw(min, max, alpha)\<close> never fails, whatever its arguments (also
  for \<open>alpha = 1\<close>, \<open>min \<le> 0\<close> or \<open>max \<le> min\<close>): it returns a number, and the engine's
  register has advanced by exactly one \<open>next()\<close> step, which is taken before any
  arithmetic on the arguments.
\<close>

theorem prng_powerLaw_total:
  "(\<exists>v. prng_powerLaw mn mx alpha g = Inr (v, snd (prng_next g)))
   \<and> state (snd (prng_next g)) = sint (word_of_int (state g) + 0x6D2B79F5 :: 32 word)"
  by (simp add: prng_powerLaw_eq prng_next_snd)

text \<open>
  C5 as stated fails: with \<open>max \<le> min\<close> (here \<open>min = 2\<close>, \<open>max = 1\<close>, \<open>alpha = 1.5\<close>) and
  with \<open>alpha = 1\<close> the call returns normally, and the register, 0 before the call, is
  1831565813 after it.
\<close>

theorem prng_powerLaw_counterexample:
  "map_sum id snd (prng_powerLaw 2 1 1.5 \<lparr>state = 0\<rparr>) = Inr \<lparr>state = 1831565813\<rparr>
   \<and> map_sum id snd (prng_powerLaw 1 2 1 \<lparr>state = 0\<rparr>) = Inr \<lparr>state = 1831565813\<rparr>
   \<and> prng_powerLaw 2 1 1.5 \<lparr>state = 0\<rparr> \<noteq> Inl DomainError
   \<and> prng_powerLaw 1 2 1 \<lparr>state = 0\<rparr> \<noteq> Inl DomainError
   \<and> state \<lparr>state = 1831565813\<rparr> \<noteq> state \<lparr>state = 0\<rparr>"
  by (simp add: prng_powerLaw_eq prng_next_state_zero)

section \<open>Integer ranges in doubles\<close>









section \<open>Sampling without replacement\<close>

lemma less_ceiling_nat: "i < nat \<lceil>n :: real\<rceil> \<longleftrightarrow> real i < n"
proof -
  have "i < nat \<lceil>n\<rceil> \<longleftrightarrow> int i < \<lceil>n\<rceil>" by (simp add: zless_nat_eq_int_zless)
  also have "\<dots> \<longleftrightarrow> of_int (int i) < n" by (rule less_ceiling_iff)
  finally show ?thesis by simp
qed

lemma pickMultiple_loop_step:
  "real i < n \<Longrightarrow>
   pickMultiple_loop i n copy result (h, g) =
     pickMultiple_loop (i + 1) n copy result
       ((h[result := (h ! result) @ [js_get (h ! copy) (fst (prng_int 0 (int (length (h ! copy)) - 1) g))]])
          [copy := js_splice1
                     ((h[result := (h ! result) @ [js_get (h ! copy) (fst (prng_int 0 (int (length (h ! copy)) - 1) g))]]) ! copy)
                     (fst (prng_int 0 (int (length (h ! copy)) - 1) g))],
        snd (prng_int 0 (int (length (h ! copy)) - 1) g))"
  by (subst pickMultiple_loop.simps) (simp add: Let_def split_beta)

lemma pickMultiple_loop_done:
  "\<not> real i < n \<Longrightarrow> pickMultiple_loop i n copy result (h, g) = (h, g)"
  by (subst pickMultiple_loop.simps) simp

lemma js_get_map_nth:
  "m < length qs \<Longrightarrow> js_get (map f qs) (int m) = f (qs ! m)"
  by (simp add: js_get_def)

lemma js_splice1_map_nth:
  "m < length qs \<Longrightarrow> js_splice1 (map f qs) (int m) = map f (take m qs @ drop (Suc m) qs)"
  by (simp add: js_splice1_def Let_def take_map drop_map min_def)

lemma selected_positions_step:
  "selected_positions (Suc k) qs g =
     qs ! nat (fst (prng_int 0 (int (length qs) - 1) g))
       # selected_positions k
           (take (nat (fst (prng_int 0 (int (length qs) - 1) g))) qs
              @ drop (Suc (nat (fst (prng_int 0 (int (length qs) - 1) g)))) qs)
           (snd (prng_int 0 (int (length qs) - 1) g))"
  by (simp add: split_beta)

lemma remove_nth_distinct:
  assumes "m < length qs" "distinct qs"
  shows "distinct (take m qs @ drop (Suc m) qs)
         \<and> qs ! m \<notin> set (take m qs @ drop (Suc m) qs)
         \<and> set (take m qs @ drop (Suc m) qs) \<subseteq> set qs"
proof -
  have qs: "qs = take m qs @ qs ! m # drop (Suc m) qs"
    using assms(1) by (rule id_take_nth_drop)
  have "distinct (take m qs @ qs ! m # drop (Suc m) qs)"
    using assms(2) qs by simp
  moreover have "set (take m qs) \<subseteq> set qs" "set (drop (Suc m) qs) \<subseteq> set qs"
    by (rule set_take_subset, rule set_drop_subset)
  ultimately show ?thesis by auto
qed

lemma selected_positions_distinct:
  "k \<le> length qs \<Longrightarrow> distinct qs
   \<Longrightarrow> length (selected_positions k qs g) = k
       \<and> distinct (selected_positions k qs g)
       \<and> set (selected_positions k qs g) \<subseteq> set qs"
proof (induction k arbitrary: qs g)
  case 0
  then show ?case by simp
next
  case (Suc k)
  let ?idx = "fst (prng_int 0 (int (length qs) - 1) g)"
  let ?g = "snd (prng_int 0 (int (length qs) - 1) g)"
  let ?m = "nat ?idx"
  let ?qs = "take ?m qs @ drop (Suc ?m) qs"
  have "(0::int) \<le> int (length qs) - 1" using Suc.prems(1) by (cases qs) simp_all
  from prng_int_range [OF this, of g]
  have "0 \<le> ?idx" "?idx \<le> int (length qs) - 1" by simp_all
  then have m: "?m < length qs" by linarith
  from remove_nth_distinct [OF m Suc.prems(2)]
  have rest: "distinct ?qs" "qs ! ?m \<notin> set ?qs" "set ?qs \<subseteq> set qs" by simp_all
  have "k \<le> length ?qs" using Suc.prems(1) m by simp
  from Suc.IH [OF this rest(1), of ?g]
  have ih: "length (selected_positions k ?qs ?g) = k"
    "distinct (selected_positions k ?qs ?g)"
    "set (selected_positions k ?qs ?g) \<subseteq> set ?qs"
    by simp_all
  have "qs ! ?m \<in> set qs" using m by simp
  with ih rest show ?case
    unfolding selected_positions_step by auto
qed

lemma pickMultiple_loop_inv:
  "nat \<lceil>n\<rceil> - i = k \<Longrightarrow> copy \<noteq> result \<Longrightarrow> copy < length h \<Longrightarrow> result < length h
   \<Longrightarrow> h ! copy = map ((!) xs) qs \<Longrightarrow> h ! result = map ((!) xs) ps \<Longrightarrow> k \<le> length qs
   \<Longrightarrow> length (fst (pickMultiple_loop i n copy result (h, g))) = length h
       \<and> (\<forall>a. a \<noteq> copy \<and> a \<noteq> result
             \<longrightarrow> fst (pickMultiple_loop i n copy result (h, g)) ! a = h ! a)
       \<and> fst (pickMultiple_loop i n copy result (h, g)) ! result
           = map ((!) xs) (ps @ selected_positions k qs g)"
proof (induction k arbitrary: i h g ps qs)
  case 0
  then have "\<not> i < nat \<lceil>n\<rceil>" by linarith
  then have "\<not> real i < n" unfolding less_ceiling_nat .
  then have "pickMultiple_loop i n copy result (h, g) = (h, g)"
    by (rule pickMultiple_loop_done)
  then show ?case using "0.prems"(6) by simp
next
  case (Suc k)
  let ?idx = "fst (prng_int 0 (int (length (h ! copy)) - 1) g)"
  let ?g = "snd (prng_int 0 (int (length (h ! copy)) - 1) g)"
  let ?m = "nat ?idx"
  let ?h1 = "h[result := (h ! result) @ [js_get (h ! copy) ?idx]]"
  let ?h2 = "?h1[copy := js_splice1 (?h1 ! copy) ?idx]"
  let ?ps = "ps @ [qs ! ?m]"
  let ?qs = "take ?m qs @ drop (Suc ?m) qs"
  from Suc.prems(1) have "i < nat \<lceil>n\<rceil>" by linarith
  then have lt: "real i < n" unfolding less_ceiling_nat .
  have len: "length (h ! copy) = length qs" using Suc.prems(5) by simp
  have "(0::int) \<le> int (length qs) - 1" using Suc.prems(7) by (cases qs) simp_all
  from prng_int_range [OF this, of g]
  have idx: "0 \<le> ?idx" "?idx \<le> int (length qs) - 1" by (simp_all add: len)
  then have m: "?m < length qs" "?idx = int ?m" by simp_all
  have get: "js_get (h ! copy) ?idx = xs ! (qs ! ?m)"
    using js_get_map_nth [OF m(1), of "(!) xs"] m(2) Suc.prems(5) by simp
  have h1_copy: "?h1 ! copy = map ((!) xs) qs"
    using Suc.prems(2,5) by simp
  have splice: "js_splice1 (?h1 ! copy) ?idx = map ((!) xs) ?qs"
    using js_splice1_map_nth [OF m(1), of "(!) xs"] m(2) h1_copy by simp
  have h2_copy: "?h2 ! copy = map ((!) xs) ?qs"
    using Suc.prems(3) splice by simp
  have h2_result: "?h2 ! result = map ((!) xs) ?ps"
    using Suc.prems(2,4,6) get by simp
  have h2_len: "length ?h2 = length h" by simp
  have h2_frame: "\<forall>a. a \<noteq> copy \<and> a \<noteq> result \<longrightarrow> ?h2 ! a = h ! a" by simp
  have k: "nat \<lceil>n\<rceil> - (i + 1) = k" "k \<le> length ?qs"
    using Suc.prems(1,7) m(1) by simp_all
  have step: "pickMultiple_loop i n copy result (h, g)
                = pickMultiple_loop (i + 1) n copy result (?h2, ?g)"
    using lt by (rule pickMultiple_loop_step)
  have sel: "selected_positions (Suc k) qs g = qs ! ?m # selected_positions k ?qs ?g"
    unfolding selected_positions_step len ..
  have "length (fst (pickMultiple_loop (i + 1) n copy result (?h2, ?g))) = length ?h2
       \<and> (\<forall>a. a \<noteq> copy \<and> a \<noteq> result
             \<longrightarrow> fst (pickMultiple_loop (i + 1) n copy result (?h2, ?g)) ! a = ?h2 ! a)
       \<and> fst (pickMultiple_loop (i + 1) n copy result (?h2, ?g)) ! result
           = map ((!) xs) (?ps @ selected_positions k ?qs ?g)"
    using k(1) Suc.prems(2) _ _ h2_copy h2_result k(2)
  proof (rule Suc.IH)
    show "copy < length ?h2" using Suc.prems(3) by simp
    show "result < length ?h2" using Suc.prems(4) by simp
  qed
  then show ?case
    unfolding step sel using h2_len h2_frame by auto
qed

lemma Math_min_length:
  "(case Math_min cnt (Num (real len)) of
      Num n \<Rightarrow> nat \<lceil>n\<rceil> = selections cnt len
    | PosInf \<Rightarrow> False
    | _ \<Rightarrow> selections cnt len = 0)"
  by (cases cnt) (simp_all add: selections_def)

lemma selections_nat: "selections (Num (real c)) len = min c len"
proof -
  have "min (real c) (real len) = real (min c len)" by simp
  then show ?thesis unfolding selections_def by simp
qed

lemma prng_pickMultiple_eq:
  "prng_pickMultiple arr cnt (h, g) =
     (length h + 1,
      case Math_min cnt (Num (real (length (h ! arr)))) of
        Num n \<Rightarrow> pickMultiple_loop 0 n (length h) (length h + 1) (h @ [h ! arr, []], g)
      | _ \<Rightarrow> (h @ [h ! arr, []], g))"
  by (cases "Math_min cnt (Num (real (length (h ! arr))))")
     (simp_all add: prng_pickMultiple_def alloc_def Let_def nth_append)

lemma selections_le: "selections cnt len \<le> len"
proof (cases cnt)
  case (Num c)
  have "\<lceil>min c (real len)\<rceil> \<le> \<lceil>real len\<rceil>" by (rule ceiling_mono) simp
  then show ?thesis unfolding Num selections_def by simp
qed (simp_all add: selections_def)

lemma prng_pickMultiple_result:
  assumes "prng_pickMultiple arr cnt (h, g) = (res, h', g')"
  shows "res = length h + 1
         \<and> (\<forall>a < length h. h' ! a = h ! a)
         \<and> h' ! res = map ((!) (h ! arr))
                         (selected_positions (selections cnt (length (h ! arr)))
                            [0..<length (h ! arr)] g)"
proof -
  let ?xs = "h ! arr"
  let ?k = "selections cnt (length ?xs)"
  let ?copy = "length h"
  let ?result = "length h + 1"
  let ?h2 = "h @ [?xs, []]"
  let ?M = "Math_min cnt (Num (real (length ?xs)))"
  let ?L = "case ?M of Num n \<Rightarrow> pickMultiple_loop 0 n ?copy ?result (?h2, g) | _ \<Rightarrow> (?h2, g)"
  have "prng_pickMultiple arr cnt (h, g) = (?result, ?L)"
    by (rule prng_pickMultiple_eq)
  with assms have res: "res = ?result" and h': "h' = fst ?L"
    by auto
  have inv: "(\<forall>a < length h. fst ?L ! a = h ! a)
             \<and> fst ?L ! ?result = map ((!) ?xs) (selected_positions ?k [0..<length ?xs] g)"
  proof (cases ?M)
    case (Num n)
    with Math_min_length [of cnt "length ?xs"] have n: "nat \<lceil>n\<rceil> = ?k" by simp
    let ?R = "pickMultiple_loop 0 n ?copy ?result (?h2, g)"
    have "length (fst ?R) = length ?h2
          \<and> (\<forall>a. a \<noteq> ?copy \<and> a \<noteq> ?result \<longrightarrow> fst ?R ! a = ?h2 ! a)
          \<and> fst ?R ! ?result = map ((!) ?xs) ([] @ selected_positions ?k [0..<length ?xs] g)"
    proof (rule pickMultiple_loop_inv)
      show "nat \<lceil>n\<rceil> - 0 = ?k" using n by simp
      show "?copy \<noteq> ?result" by simp
      show "?copy < length ?h2" by simp
      show "?result < length ?h2" by simp
      show "?h2 ! ?copy = map ((!) ?xs) [0..<length ?xs]" by (simp add: map_nth)
      show "?h2 ! ?result = map ((!) ?xs) []" by (simp add: nth_append)
      show "?k \<le> length [0..<length ?xs]" using selections_le [of cnt "length ?xs"] by simp
    qed
    then have "(\<forall>a < length h. fst ?R ! a = h ! a)
               \<and> fst ?R ! ?result = map ((!) ?xs) (selected_positions ?k [0..<length ?xs] g)"
      by (simp add: nth_append)
    then show ?thesis unfolding Num by simp
  next
    case PosInf
    with Math_min_length [of cnt "length ?xs"] show ?thesis by simp
  next
    case NegInf
    with Math_min_length [of cnt "length ?xs"] have "?k = 0" by simp
    then show ?thesis unfolding NegInf by (simp add: nth_append)
  next
    case NaN
    with Math_min_length [of cnt "length ?xs"] have "?k = 0" by simp
    then show ?thesis unfolding NaN by (simp add: nth_append)
  qed
  then show ?thesis unfolding res h' by simp
qed

text \<open>
  C7 (amended).  For every array and every count that is a natural number,
  \<open>pickMultiple(items, count)\<close> returns a new array of exactly \<open>min(count, len(items))\<close>
  elements.  For any count the new array has as many elements as there are integers
  \<open>i \<ge> 0\<close> below \<open>Math.min(count, len(items))\<close>: the ceiling of a positive fractional
  count, none for a negative count or \<open>NaN\<close>.  The elements are those of \<open>items\<close> at
  pairwise distinct positions, in the order in which they were selected: the position
  selected each time is the one that \<open>int(0, remaining - 1)\<close> indexes among the positions
  not yet selected.  The caller's array, and every other array that existed before the
  call, is unchanged.
\<close>

theorem prng_pickMultiple_without_replacement:
  assumes "arr < length h" and "prng_pickMultiple arr cnt (h, g) = (res, h', g')"
  shows "h' ! arr = h ! arr
         \<and> (\<forall>a < length h. h' ! a = h ! a)
         \<and> length h \<le> res
         \<and> h' ! res = map ((!) (h ! arr))
                         (selected_positions (selections cnt (length (h ! arr)))
                            [0..<length (h ! arr)] g)
         \<and> length (h' ! res) = selections cnt (length (h ! arr))
         \<and> distinct (selected_positions (selections cnt (length (h ! arr)))
                       [0..<length (h ! arr)] g)
         \<and> set (selected_positions (selections cnt (length (h ! arr)))
                   [0..<length (h ! arr)] g) \<subseteq> {..<length (h ! arr)}
         \<and> (\<forall>c::nat. cnt = Num (real c) \<longrightarrow> length (h' ! res) = min c (length (h ! arr)))"
proof -
  let ?xs = "h ! arr"
  let ?k = "selections cnt (length ?xs)"
  let ?ps = "selected_positions ?k [0..<length ?xs] g"
  from prng_pickMultiple_result [OF assms(2)]
  have res: "res = length h + 1" and frame: "\<forall>a < length h. h' ! a = h ! a"
    and r: "h' ! res = map ((!) ?xs) ?ps"
    by blast+
  have "?k \<le> length [0..<length ?xs]" using selections_le [of cnt "length ?xs"] by simp
  then have "length ?ps = ?k \<and> distinct ?ps \<and> set ?ps \<subseteq> set [0..<length ?xs]"
    by (rule selected_positions_distinct) simp
  then have ps: "length ?ps = ?k" "distinct ?ps" "set ?ps \<subseteq> {..<length ?xs}"
    by auto
  have len: "length (h' ! res) = ?k" unfolding r using ps(1) by simp
  have "\<forall>c::nat. cnt = Num (real c) \<longrightarrow> length (h' ! res) = min c (length ?xs)"
    unfolding len by (auto simp: selections_nat)
  with frame assms(1) res r len ps(2,3) show ?thesis by simp
qed

lemma prng_next_42:
  "prng_next \<lparr>state = 42\<rparr> = (645430239 / 1073741824, \<lparr>state = 1831565855\<rparr>)"
  by code_simp

lemma prng_next_1831565855:
  "prng_next \<lparr>state = 1831565855\<rparr> = (962696645 / 2147483648, \<lparr>state = - 631835628\<rparr>)"
  by code_simp

lemma prng_next_631835628:
  "prng_next \<lparr>state = - 631835628\<rparr> = (57208011 / 67108864, \<lparr>state = 1199730185\<rparr>)"
  by code_simp

lemma prng_int_42: "prng_int 0 2 \<lparr>state = 42\<rparr> = (1, \<lparr>state = 1831565855\<rparr>)"
  by (simp add: prng_int_def prng_next_42)

lemma prng_int_1831565855:
  "prng_int 0 1 \<lparr>state = 1831565855\<rparr> = (0, \<lparr>state = - 631835628\<rparr>)"
  by (simp add: prng_int_def prng_next_1831565855)

lemma prng_int_631835628:
  "prng_int 0 0 \<lparr>state = - 631835628\<rparr> = (0, \<lparr>state = 1199730185\<rparr>)"
  by (simp add: prng_int_def prng_next_631835628)

lemma prng_pickMultiple_two:
  "prng_pickMultiple 0 (Num 2) ([[Some (1::nat), Some 2, Some 3]], \<lparr>state = 42\<rparr>) =
     (2, [[Some 1, Some 2, Some 3], [Some 3], [Some 2, Some 1]], \<lparr>state = - 631835628\<rparr>)"
  by (simp add: prng_pickMultiple_eq pickMultiple_loop_step pickMultiple_loop_done prng_int_42
        prng_int_1831565855 js_get_def js_splice1_def)

lemma selected_positions_two:
  "selected_positions (selections (Num 2) (length ([[Some (1::nat), Some 2, Some 3]] ! 0)))
     [0..<length ([[Some (1::nat), Some 2, Some 3]] ! 0)] \<lparr>state = 42\<rparr> = [1, 0]"
proof -
  have l: "length ([[Some (1::nat), Some 2, Some 3]] ! 0) = 3" by simp
  have k: "selections (Num 2) 3 = Suc (Suc 0)"
    using selections_nat [of 2 3] by simp
  have u: "[0..<3] = [0, 1, 2::nat]"
    by (simp add: upt_rec)
  have "selected_positions (Suc (Suc 0)) [0, 1, 2] \<lparr>state = 42\<rparr> = [1, 0]"
    by (simp add: prng_int_42 prng_int_1831565855)
  then show ?thesis unfolding l k u .
qed

theorem prng_pickMultiple_without_replacement_witness:
  "(0::nat) < length [[Some (1::nat), Some 2, Some 3]]
   \<and> prng_pickMultiple 0 (Num 2) ([[Some (1::nat), Some 2, Some 3]], \<lparr>state = 42\<rparr>) =
       (2, [[Some 1, Some 2, Some 3], [Some 3], [Some 2, Some 1]], \<lparr>state = - 631835628\<rparr>)
   \<and> [[Some (1::nat), Some 2, Some 3], [Some 3], [Some 2, Some 1]] ! 0
       = [[Some 1, Some 2, Some 3]] ! 0
   \<and> [[Some (1::nat), Some 2, Some 3], [Some 3], [Some 2, Some 1]] ! 2
       = map ((!) ([[Some 1, Some 2, Some 3]] ! 0))
           (selected_positions (selections (Num 2) (length ([[Some (1::nat), Some 2, Some 3]] ! 0)))
              [0..<length ([[Some (1::nat), Some 2, Some 3]] ! 0)] \<lparr>state = 42\<rparr>)
   \<and> selected_positions (selections (Num 2) (length ([[Some (1::nat), Some 2, Some 3]] ! 0)))
         [0..<length ([[Some (1::nat), Some 2, Some 3]] ! 0)] \<lparr>state = 42\<rparr> = [1, 0]
   \<and> Num 2 = Num (real 2)
   \<and> length ([[Some (1::nat), Some 2, Some 3], [Some 3], [Some 2, Some 1]] ! 2)
       = min 2 (length ([[Some (1::nat), Some 2, Some 3]] ! 0))"
proof -
  have a: "(0::nat) < length [[Some (1::nat), Some 2, Some 3]]" by simp
  have c: "Num 2 = Num (real 2)" by simp
  from prng_pickMultiple_without_replacement [OF a prng_pickMultiple_two] a c
    prng_pickMultiple_two selected_positions_two
  show ?thesis by blast
qed

text \<open>
  C7 as stated fails for a count that is not an integer: with count 2.5 and three items
  the loop runs for \<open>i = 0, 1, 2\<close> and the result has three elements, not \<open>min(2.5, 3)\<close>.
\<close>

theorem prng_pickMultiple_fractional_counterexample:
  "prng_pickMultiple 0 (Num (5 / 2)) ([[Some (1::nat), Some 2, Some 3]], \<lparr>state = 42\<rparr>) =
     (2, [[Some 1, Some 2, Some 3], [], [Some 2, Some 1, Some 3]], \<lparr>state = 1199730185\<rparr>)
   \<and> real (length [Some (2::nat), Some 1, Some 3])
       \<noteq> min (5 / 2) (real (length [Some (1::nat), Some 2, Some 3]))"
  by (simp add: prng_pickMultiple_eq pickMultiple_loop_step pickMultiple_loop_done prng_int_42
        prng_int_1831565855 prng_int_631835628 js_get_def js_splice1_def)

section \<open>Shuffling in place\<close>

lemma shuffle_loop_step:
  "0 < i \<Longrightarrow>
   shuffle_loop i arr (h, g) =
     shuffle_loop (i - 1) arr
       ((h[arr := js_set (h ! arr) i (js_get (h ! arr) (fst (prng_int 0 i g)))])
          [arr := js_set ((h[arr := js_set (h ! arr) i (js_get (h ! arr) (fst (prng_int 0 i g)))]) ! arr)
                    (fst (prng_int 0 i g)) (js_get (h ! arr) i)],
        snd (prng_int 0 i g))"
  by (subst shuffle_loop.simps) (simp add: Let_def split_beta)

lemma shuffle_loop_done: "\<not> 0 < i \<Longrightarrow> shuffle_loop i arr (h, g) = (h, g)"
  by (subst shuffle_loop.simps) simp

lemma js_swap:
  assumes "I < length a" "J < length a"
  shows "js_set (js_set a (int I) (js_get a (int J))) (int J) (js_get a (int I))
           = a[I := a ! J, J := a ! I]"
  using assms by (simp add: js_set_def js_get_def)

lemma shuffle_loop_inv:
  "nat i = k \<Longrightarrow> arr < length h \<Longrightarrow> i < int (length (h ! arr))
   \<Longrightarrow> length (fst (shuffle_loop i arr (h, g))) = length h
       \<and> (\<forall>a. a \<noteq> arr \<longrightarrow> fst (shuffle_loop i arr (h, g)) ! a = h ! a)
       \<and> mset (fst (shuffle_loop i arr (h, g)) ! arr) = mset (h ! arr)"
proof (induction k arbitrary: i h g)
  case 0
  then have "\<not> 0 < i" by simp
  then show ?case by (simp add: shuffle_loop_done)
next
  case (Suc k)
  let ?a = "h ! arr"
  let ?j = "fst (prng_int 0 i g)"
  let ?g = "snd (prng_int 0 i g)"
  let ?h1 = "h[arr := js_set ?a i (js_get ?a ?j)]"
  let ?h2 = "?h1[arr := js_set (?h1 ! arr) ?j (js_get ?a i)]"
  from Suc.prems(1) have pos: "0 < i" by simp
  then have "(0::int) \<le> i" by simp
  from prng_int_range [OF this, of g] have j: "0 \<le> ?j" "?j \<le> i" by simp_all
  have I: "nat i < length ?a" "i = int (nat i)" using pos Suc.prems(3) by simp_all
  have J: "nat ?j < length ?a" "?j = int (nat ?j)" using j Suc.prems(3) by simp_all
  have "?h2 ! arr = js_set (js_set ?a i (js_get ?a ?j)) ?j (js_get ?a i)"
    using Suc.prems(2) by simp
  also have "\<dots> = ?a[nat i := ?a ! nat ?j, nat ?j := ?a ! nat i]"
    using js_swap [OF I(1) J(1)] I(2) J(2) by simp
  finally have h2_arr: "?h2 ! arr = ?a[nat i := ?a ! nat ?j, nat ?j := ?a ! nat i]" .
  then have h2_mset: "mset (?h2 ! arr) = mset ?a"
    using mset_swap [OF J(1) I(1)] by simp
  have h2_len: "length ?h2 = length h" by simp
  have h2_frame: "\<forall>a. a \<noteq> arr \<longrightarrow> ?h2 ! a = h ! a" by simp
  have h2_alen: "length (?h2 ! arr) = length ?a" using h2_arr by simp
  have step: "shuffle_loop i arr (h, g) = shuffle_loop (i - 1) arr (?h2, ?g)"
    using pos by (rule shuffle_loop_step)
  have "length (fst (shuffle_loop (i - 1) arr (?h2, ?g))) = length ?h2
       \<and> (\<forall>a. a \<noteq> arr \<longrightarrow> fst (shuffle_loop (i - 1) arr (?h2, ?g)) ! a = ?h2 ! a)
       \<and> mset (fst (shuffle_loop (i - 1) arr (?h2, ?g)) ! arr) = mset (?h2 ! arr)"
  proof (rule Suc.IH)
    show "nat (i - 1) = k" using Suc.prems(1) by simp
    show "arr < length ?h2" using Suc.prems(2) by simp
    show "i - 1 < int (length (?h2 ! arr))" using Suc.prems(3) h2_alen by simp
  qed
  then show ?case
    unfolding step using h2_len h2_frame h2_mset by auto
qed

lemma prng_shuffle_eq:
  "prng_shuffle arr (h, g) = (arr, shuffle_loop (int (length (h ! arr)) - 1) arr (h, g))"
  by (simp add: prng_shuffle_def split_beta)

text \<open>
  C10.  \<open>shuffle\<close> returns the reference it was given; the contents of that array after
  the call are a permutation of its contents before (the multiset of elements is the
  same) and no other array changes; for an array of length 0 or 1 nothing changes, the
  engine's register included.
\<close>

theorem prng_shuffle_permutes:
  assumes "arr < length h" and "prng_shuffle arr (h, g) = (res, h', g')"
  shows "res = arr
         \<and> mset (h' ! arr) = mset (h ! arr)
         \<and> length h' = length h
         \<and> (\<forall>a. a \<noteq> arr \<longrightarrow> h' ! a = h ! a)
         \<and> (length (h ! arr) \<le> 1 \<longrightarrow> h' = h \<and> g' = g)"
proof -
  let ?L = "shuffle_loop (int (length (h ! arr)) - 1) arr (h, g)"
  have "prng_shuffle arr (h, g) = (arr, ?L)" by (rule prng_shuffle_eq)
  with assms(2) have res: "res = arr" and L: "?L = (h', g')" by auto
  have "length (fst ?L) = length h
       \<and> (\<forall>a. a \<noteq> arr \<longrightarrow> fst ?L ! a = h ! a)
       \<and> mset (fst ?L ! arr) = mset (h ! arr)"
    using refl assms(1) by (rule shuffle_loop_inv) simp
  then have inv: "length h' = length h \<and> (\<forall>a. a \<noteq> arr \<longrightarrow> h' ! a = h ! a)
       \<and> mset (h' ! arr) = mset (h ! arr)"
    by (simp add: L)
  have "length (h ! arr) \<le> 1 \<longrightarrow> h' = h \<and> g' = g"
  proof
    assume "length (h ! arr) \<le> 1"
    then have "\<not> 0 < int (length (h ! arr)) - 1" by simp
    then have "?L = (h, g)" by (rule shuffle_loop_done)
    with L show "h' = h \<and> g' = g" by simp
  qed
  with inv res show ?thesis by blast
qed

lemma prng_int_0: "prng_int 0 1 \<lparr>state = 0\<rparr> = (0, \<lparr>state = 1831565813\<rparr>)"
  by (simp add: prng_int_def prng_next_0)

lemma prng_shuffle_two:
  "prng_shuffle 0 ([[Some (1::nat), Some 2]], \<lparr>state = 0\<rparr>) =
     (0, [[Some 2, Some 1]], \<lparr>state = 1831565813\<rparr>)"
  by (simp add: prng_shuffle_eq shuffle_loop_step shuffle_loop_done prng_int_0
        js_get_def js_set_def)

lemma prng_shuffle_one:
  "prng_shuffle 0 ([[Some (1::nat)]], \<lparr>state = 0\<rparr>) = (0, [[Some 1]], \<lparr>state = 0\<rparr>)"
  by (simp add: prng_shuffle_eq shuffle_loop_done)

theorem prng_shuffle_permutes_witness:
  "(0::nat) < length [[Some (1::nat), Some 2]]
   \<and> prng_shuffle 0 ([[Some (1::nat), Some 2]], \<lparr>state = 0\<rparr>) =
       (0, [[Some 2, Some 1]], \<lparr>state = 1831565813\<rparr>)
   \<and> mset ([[Some 2, Some (1::nat)]] ! 0) = mset ([[Some 1, Some 2]] ! 0)
   \<and> length ([[Some (1::nat)]] ! 0) \<le> 1
   \<and> prng_shuffle 0 ([[Some (1::nat)]], \<lparr>state = 0\<rparr>) = (0, [[Some 1]], \<lparr>state = 0\<rparr>)"
proof -
  have a: "(0::nat) < length [[Some (1::nat), Some 2]]" by simp
  have b: "(0::nat) < length [[Some (1::nat)]]" by simp
  from prng_shuffle_permutes [OF a prng_shuffle_two] prng_shuffle_permutes [OF b prng_shuffle_one]
    a prng_shuffle_two prng_shuffle_one
  show ?thesis by simp
qed

section \<open>Candles\<close>

subsection \<open>The order of the numbers that are not NaN\<close>












subsection \<open>Rounding to decimals is monotone\<close>













subsection \<open>One candle\<close>











subsection \<open>All candles\<close>





subsection \<open>A draw of zero\<close>













subsection \<open>A positive draw\<close>

















lemma pad_empty: "pad [] =
    [1, 0, 0, 0, 0, 0, 0, 0, 0, 0, 0, 0, 0, 0, 0, 0,
     0, 0, 0, 0, 0, 0, 0, 0, 0, 0, 0, 0, 0, 0, 0, 0,
     0, 0, 0, 0, 0, 0, 0, 0, 0, 0, 0, 0, 0, 0, 0, 0,
     0, 0, 0, 0, 0, 0, 0, 0, 0, 0, 0, 0, 0, 0, 0, 0,
     0, 0, 0, 0, 0, 0, 0, 0, 0, 0, 0, 0, 0, 0, 0, 0,
     0, 0, 0, 0, 0, 0, 0, 0, 0, 0, 0, 0, 0, 0, 0, 0,
     0, 0, 0, 0, 0, 0, 0, 0, 0, 0, 0, 0, 0, 0, 0, 0,
     0, 0, 0, 0, 0, 0, 0, 0, 0, 0, 0, 0, 0, 0, 0, 0,
     0, 0, 0, 0, 0, 0, 0, 128]"
  by (simp add: pad_def padded_length_eq Let_def replicate_num_eval)

lemma absorb_block_empty:
  "absorb_i_loop 0 0
    [1, 0, 0, 0, 0, 0, 0, 0, 0, 0, 0, 0, 0, 0, 0, 0,
     0, 0, 0, 0, 0, 0, 0, 0, 0, 0, 0, 0, 0, 0, 0, 0,
     0, 0, 0, 0, 0, 0, 0, 0, 0, 0, 0, 0, 0, 0, 0, 0,
     0, 0, 0, 0, 0, 0, 0, 0, 0, 0, 0, 0, 0, 0, 0, 0,
     0, 0, 0, 0, 0, 0, 0, 0, 0, 0, 0, 0, 0, 0, 0, 0,
     0, 0, 0, 0, 0, 0, 0, 0, 0, 0, 0, 0, 0, 0, 0, 0,
     0, 0, 0, 0, 0, 0, 0, 0, 0, 0, 0, 0, 0, 0, 0, 0,
     0, 0, 0, 0, 0, 0, 0, 0, 0, 0, 0, 0, 0, 0, 0, 0,
     0, 0, 0, 0, 0, 0, 0, 128]
    (replicate 25 0) =
    [1, 0, 0, 0,
     0, 0, 0, 0,
     0, 0, 0, 0,
     0, 0, 0, 0,
     9223372036854775808, 0, 0, 0,
     0, 0, 0, 0,
     0]"
  by code_simp

lemma keccakF_empty:
  "keccakF
    [1, 0, 0, 0,
     0, 0, 0, 0,
     0, 0, 0, 0,
     0, 0, 0, 0,
     9223372036854775808, 0, 0, 0,
     0, 0, 0, 0,
     0] =
    [4333579421379646149, 13836122230913597074, 4262519377828905189, 8116759062988257915,
     8406387447366859581, 14671339323370021561, 2243375101132795228, 9371364203318886753,
     9347994793612953298, 12814238161780307547, 4391692840257016808, 4309499098775122448,
     13438072403645551266, 18018124564071650747, 4323130096954625545, 16970298442240338249,
     1971761234120675839, 450719451514497906, 18340686150147091359, 11254645818134300982,
     16062291397582171322, 1601982631079003425, 7734681229251997073, 13256946727218518206,
     11816912122432958423]"
  by (simp only: keccakF_eval bit_eval list_eval nat_eval cong: if_weak_cong)

lemma squeeze_empty:
  "squeeze_i_loop 0
    [4333579421379646149, 13836122230913597074, 4262519377828905189, 8116759062988257915,
     8406387447366859581, 14671339323370021561, 2243375101132795228, 9371364203318886753,
     9347994793612953298, 12814238161780307547, 4391692840257016808, 4309499098775122448,
     13438072403645551266, 18018124564071650747, 4323130096954625545, 16970298442240338249,
     1971761234120675839, 450719451514497906, 18340686150147091359, 11254645818134300982,
     16062291397582171322, 1601982631079003425, 7734681229251997073, 13256946727218518206,
     11816912122432958423]
    (replicate 32 0) =
    [197, 210, 70, 1, 134, 247, 35, 60, 146, 126, 125, 178, 220, 199, 3, 192,
     229, 0, 182, 83, 202, 130, 39, 59, 123, 250, 216, 4, 93, 133, 164, 112]"
  by code_simp

lemma keccak256_empty: "keccak256 [] =
    [197, 210, 70, 1, 134, 247, 35, 60, 146, 126, 125, 178, 220, 199, 3, 192,
     229, 0, 182, 83, 202, 130, 39, 59, 123, 250, 216, 4, 93, 133, 164, 112]"
proof -
  have len: "length (pad []) = 136"
    by (simp add: pad_def padded_length_eq Let_def)
  have "absorb_loop 0 (pad []) (replicate 25 0) =
        absorb_loop 136 (pad []) (keccakF (absorb_i_loop 0 0 (pad []) (replicate 25 0)))"
    by (subst absorb_loop.simps) (simp add: len rate_def)
  also have "\<dots> = keccakF (absorb_i_loop 0 0 (pad []) (replicate 25 0))"
    by (subst absorb_loop.simps) (simp add: len)
  finally show ?thesis
    by (simp only: keccak256_def pad_empty absorb_block_empty keccakF_empty squeeze_empty)
qed

lemma pad_abc: "pad [97, 98, 99] =
    [97, 98, 99, 1, 0, 0, 0, 0, 0, 0, 0, 0, 0, 0, 0, 0,
     0, 0, 0, 0, 0, 0, 0, 0, 0, 0, 0, 0, 0, 0, 0, 0,
     0, 0, 0, 0, 0, 0, 0, 0, 0, 0, 0, 0, 0, 0, 0, 0,
     0, 0, 0, 0, 0, 0, 0, 0, 0, 0, 0, 0, 0, 0, 0, 0,
     0, 0, 0, 0, 0, 0, 0, 0, 0, 0, 0, 0, 0, 0, 0, 0,
     0, 0, 0, 0, 0, 0, 0, 0, 0, 0, 0, 0, 0, 0, 0, 0,
     0, 0, 0, 0, 0, 0, 0, 0, 0, 0, 0, 0, 0, 0, 0, 0,
     0, 0, 0, 0, 0, 0, 0, 0, 0, 0, 0, 0, 0, 0, 0, 0,
     0, 0, 0, 0, 0, 0, 0, 128]"
  by (simp add: pad_def padded_length_eq Let_def replicate_num_eval)

lemma absorb_block_abc:
  "absorb_i_loop 0 0
    [97, 98, 99, 1, 0, 0, 0, 0, 0, 0, 0, 0, 0, 0, 0, 0,
     0, 0, 0, 0, 0, 0, 0, 0, 0, 0, 0, 0, 0, 0, 0, 0,
     0, 0, 0, 0, 0, 0, 0, 0, 0, 0, 0, 0, 0, 0, 0, 0,
     0, 0, 0, 0, 0, 0, 0, 0, 0, 0, 0, 0, 0, 0, 0, 0,
     0, 0, 0, 0, 0, 0, 0, 0, 0, 0, 0, 0, 0, 0, 0, 0,
     0, 0, 0, 0, 0, 0, 0, 0, 0, 0, 0, 0, 0, 0, 0, 0,
     0, 0, 0, 0, 0, 0, 0, 0, 0, 0, 0, 0, 0, 0, 0, 0,
     0, 0, 0, 0, 0, 0, 0, 0, 0, 0, 0, 0, 0, 0, 0, 0,
     0, 0, 0, 0, 0, 0, 0, 128]
    (replicate 25 0) =
    [23290465, 0, 0, 0,
     0, 0, 0, 0,
     0, 0, 0, 0,
     0, 0, 0, 0,
     9223372036854775808, 0, 0, 0,
     0, 0, 0, 0,
     0]"
  by code_simp

lemma keccakF_abc:
  "keccakF
    [23290465, 0, 0, 0,
     0, 0, 0, 0,
     0, 0, 0, 0,
     0, 0, 0, 0,
     9223372036854775808, 0, 0, 0,
     0, 0, 0, 0,
     0] =
    [5740196073438511950, 7482387899283657927, 3936256278416249280, 5002423458029978860,
     13520392252802215041, 18171362494331576431, 3215941604397401109, 356599266168485374,
     6353066176999717069, 3157452396987657980, 9568101118258988932, 8254641550496870826,
     2152522230817382502, 3069919761365557184, 10654843065426652043, 1598426077798891850,
     4793818036351967518, 15475627092364680689, 3364682653216640396, 10652805097983562137,
     6992447527803355908, 9126957997163399378, 5802447900598878421, 9879892396486539214,
     15780435445017591194]"
  by (simp only: keccakF_eval bit_eval list_eval nat_eval cong: if_weak_cong)

lemma squeeze_abc:
  "squeeze_i_loop 0
    [5740196073438511950, 7482387899283657927, 3936256278416249280, 5002423458029978860,
     13520392252802215041, 18171362494331576431, 3215941604397401109, 356599266168485374,
     6353066176999717069, 3157452396987657980, 9568101118258988932, 8254641550496870826,
     2152522230817382502, 3069919761365557184, 10654843065426652043, 1598426077798891850,
     4793818036351967518, 15475627092364680689, 3364682653216640396, 10652805097983562137,
     6992447527803355908, 9126957997163399378, 5802447900598878421, 9879892396486539214,
     15780435445017591194]
    (replicate 32 0) =
    [78, 3, 101, 122, 234, 69, 169, 79, 199, 212, 123, 168, 38, 200, 214, 103,
     192, 209, 230, 227, 58, 100, 160, 54, 236, 68, 245, 143, 161, 45, 108, 69]"
  by code_simp

lemma keccak256_abc: "keccak256 [97, 98, 99] =
    [78, 3, 101, 122, 234, 69, 169, 79, 199, 212, 123, 168, 38, 200, 214, 103,
     192, 209, 230, 227, 58, 100, 160, 54, 236, 68, 245, 143, 161, 45, 108, 69]"
proof -
  have len: "length (pad [97, 98, 99]) = 136"
    by (simp add: pad_def padded_length_eq Let_def)
  have "absorb_loop 0 (pad [97, 98, 99]) (replicate 25 0) =
        absorb_loop 136 (pad [97, 98, 99]) (keccakF (absorb_i_loop 0 0 (pad [97, 98, 99]) (replicate 25 0)))"
    by (subst absorb_loop.simps) (simp add: len rate_def)
  also have "\<dots> = keccakF (absorb_i_loop 0 0 (pad [97, 98, 99]) (replicate 25 0))"
    by (subst absorb_loop.simps) (simp add: len)
  finally show ?thesis
    by (simp only: keccak256_def pad_abc absorb_block_abc keccakF_abc squeeze_abc)
qed


section \<open>Known answers of Keccak-256\<close>

lemma text_encode_abc: "text_encode ''abc'' = [97, 98, 99]"
  by (simp add: text_encode_def)

lemma bytes_hex_empty_digest:
  "bytes_hex [197, 210, 70, 1, 134, 247, 35, 60, 146, 126, 125, 178, 220, 199, 3, 192,
     229, 0, 182, 83, 202, 130, 39, 59, 123, 250, 216, 4, 93, 133, 164, 112] =
    ''c5d2460186f7233c927e7db2dcc703c0e500b653ca82273b7bfad8045d85a470''"
  by code_simp

lemma bytes_hex_abc_digest:
  "bytes_hex [78, 3, 101, 122, 234, 69, 169, 79, 199, 212, 123, 168, 38, 200, 214, 103,
     192, 209, 230, 227, 58, 100, 160, 54, 236, 68, 245, 143, 161, 45, 108, 69] =
    ''4e03657aea45a94fc7d47ba826c8d667c0d1e6e33a64a036ec44f58fa12d6c45''"
  by code_simp

text \<open>
  C1 (amended).  \<open>keccak256\<close> of the empty byte sequence is a digest of 32 bytes whose
  lower-case hexadecimal encoding is the 64-character published digest
  \<open>c5d2460186f7233c927e7db2dcc703c0e500b653ca82273b7bfad8045d85a470\<close>, and
  \<open>keccak256\<close> of the three ASCII bytes of \<open>abc\<close> has the published encoding
  \<open>4e03657aea45a94fc7d47ba826c8d667c0d1e6e33a64a036ec44f58fa12d6c45\<close>.
\<close>

theorem keccak256_known_answers:
  "length (keccak256 []) = 32
   \<and> bytes_hex (keccak256 []) =
       ''c5d2460186f7233c927e7db2dcc703c0e500b653ca82273b7bfad8045d85a470''
   \<and> bytes_hex (keccak256 (text_encode ''abc'')) =
       ''4e03657aea45a94fc7d47ba826c8d667c0d1e6e33a64a036ec44f58fa12d6c45''"
  by (simp only: keccak256_empty keccak256_abc text_encode_abc bytes_hex_empty_digest
        bytes_hex_abc_digest) simp

text \<open>
  C1 as stated fails: the string quoted for the empty input,
  \<open>c5d2460186f7233c927e7db2dcc703c0e500b653ca82273b7bfad8045d85a47\<close>, has 63
  characters, and the encoding of a 32-byte digest has 64.
\<close>

theorem keccak256_empty_quoted_digest_counterexample:
  "bytes_hex (keccak256 []) \<noteq>
     ''c5d2460186f7233c927e7db2dcc703c0e500b653ca82273b7bfad8045d85a47''"
  by (simp only: keccak256_empty bytes_hex_empty_digest) simp


lemma pad_eip55: "pad [53, 97, 97, 101, 98, 54, 48, 53, 51, 102, 51, 101, 57, 52, 99, 57,
     98, 57, 97, 48, 57, 102, 51, 51, 54, 54, 57, 52, 51, 53, 101, 55,
     101, 102, 49, 98, 101, 97, 101, 100] =
    [53, 97, 97, 101, 98, 54, 48, 53, 51, 102, 51, 101, 57, 52, 99, 57,
     98, 57, 97, 48, 57, 102, 51, 51, 54, 54, 57, 52, 51, 53, 101, 55,
     101, 102, 49, 98, 101, 97, 101, 100, 1, 0, 0, 0, 0, 0, 0, 0,
     0, 0, 0, 0, 0, 0, 0, 0, 0, 0, 0, 0, 0, 0, 0, 0,
     0, 0, 0, 0, 0, 0, 0, 0, 0, 0, 0, 0, 0, 0, 0, 0,
     0, 0, 0, 0, 0, 0, 0, 0, 0, 0, 0, 0, 0, 0, 0, 0,
     0, 0, 0, 0, 0, 0, 0, 0, 0, 0, 0, 0, 0, 0, 0, 0,
     0, 0, 0, 0, 0, 0, 0, 0, 0, 0, 0, 0, 0, 0, 0, 0,
     0, 0, 0, 0, 0, 0, 0, 128]"
  by (simp add: pad_def padded_length_eq Let_def replicate_num_eval)

lemma absorb_block_eip55:
  "absorb_i_loop 0 0
    [53, 97, 97, 101, 98, 54, 48, 53, 51, 102, 51, 101, 57, 52, 99, 57,
     98, 57, 97, 48, 57, 102, 51, 51, 54, 54, 57, 52, 51, 53, 101, 55,
     101, 102, 49, 98, 101, 97, 101, 100, 1, 0, 0, 0, 0, 0, 0, 0,
     0, 0, 0, 0, 0, 0, 0, 0, 0, 0, 0, 0, 0, 0, 0, 0,
     0, 0, 0, 0, 0, 0, 0, 0, 0, 0, 0, 0, 0, 0, 0, 0,
     0, 0, 0, 0, 0, 0, 0, 0, 0, 0, 0, 0, 0, 0, 0, 0,
     0, 0, 0, 0, 0, 0, 0, 0, 0, 0, 0, 0, 0, 0, 0, 0,
     0, 0, 0, 0, 0, 0, 0, 0, 0, 0, 0, 0, 0, 0, 0, 0,
     0, 0, 0, 0, 0, 0, 0, 128]
    (replicate 25 0) =
    [3832623079127867701, 4135206303971894835, 3689404915557415266, 3991655138769581622,
     7234295464507565669, 1, 0, 0,
     0, 0, 0, 0,
     0, 0, 0, 0,
     9223372036854775808, 0, 0, 0,
     0, 0, 0, 0,
     0]"
  by code_simp

lemma keccakF_eip55:
  "keccakF
    [3832623079127867701, 4135206303971894835, 3689404915557415266, 3991655138769581622,
     7234295464507565669, 1, 0, 0,
     0, 0, 0, 0,
     0, 0, 0, 0,
     9223372036854775808, 0, 0, 0,
     0, 0, 0, 0,
     0] =
    [15836624312777147859, 15786322667358970750, 2442633934280380100, 16503395978951257986,
     11228966244967134966, 3208393673975745109, 5387739136848102255, 15133125804815937768,
     13204984018373405562, 7063778194284855875, 14616989337536829341, 3537540160840174158,
     2279564768298789947, 16874202564108394901, 15791473629759587050, 15171540498918996389,
     76280385008921221, 6668901312837263940, 13637844577768163815, 232249560323596448,
     12983821447579099404, 10223733474373435053, 18044108595944254997, 9330985065083998898,
     8726429541088912451]"
  by (simp only: keccakF_eval bit_eval list_eval nat_eval cong: if_weak_cong)

lemma squeeze_eip55:
  "squeeze_i_loop 0
    [15836624312777147859, 15786322667358970750, 2442633934280380100, 16503395978951257986,
     11228966244967134966, 3208393673975745109, 5387739136848102255, 15133125804815937768,
     13204984018373405562, 7063778194284855875, 14616989337536829341, 3537540160840174158,
     2279564768298789947, 16874202564108394901, 15791473629759587050, 15171540498918996389,
     76280385008921221, 6668901312837263940, 13637844577768163815, 232249560323596448,
     12983821447579099404, 10223733474373435053, 18044108595944254997, 9330985065083998898,
     8726429541088912451]
    (replicate 32 0) =
    [211, 133, 101, 12, 232, 253, 198, 219, 126, 227, 160, 145, 211, 72, 20, 219,
     196, 206, 24, 33, 159, 250, 229, 33, 130, 239, 255, 64, 52, 215, 7, 229]"
  by code_simp

lemma keccak256_eip55: "keccak256 [53, 97, 97, 101, 98, 54, 48, 53, 51, 102, 51, 101, 57, 52, 99, 57,
     98, 57, 97, 48, 57, 102, 51, 51, 54, 54, 57, 52, 51, 53, 101, 55,
     101, 102, 49, 98, 101, 97, 101, 100] =
    [211, 133, 101, 12, 232, 253, 198, 219, 126, 227, 160, 145, 211, 72, 20, 219,
     196, 206, 24, 33, 159, 250, 229, 33, 130, 239, 255, 64, 52, 215, 7, 229]"
proof -
  have len: "length (pad [53, 97, 97, 101, 98, 54, 48, 53, 51, 102, 51, 101, 57, 52, 99, 57,
     98, 57, 97, 48, 57, 102, 51, 51, 54, 54, 57, 52, 51, 53, 101, 55,
     101, 102, 49, 98, 101, 97, 101, 100]) = 136"
    by (simp add: pad_def padded_length_eq Let_def)
  have "absorb_loop 0 (pad [53, 97, 97, 101, 98, 54, 48, 53, 51, 102, 51, 101, 57, 52, 99, 57,
     98, 57, 97, 48, 57, 102, 51, 51, 54, 54, 57, 52, 51, 53, 101, 55,
     101, 102, 49, 98, 101, 97, 101, 100]) (replicate 25 0) =
        absorb_loop 136 (pad [53, 97, 97, 101, 98, 54, 48, 53, 51, 102, 51, 101, 57, 52, 99, 57,
     98, 57, 97, 48, 57, 102, 51, 51, 54, 54, 57, 52, 51, 53, 101, 55,
     101, 102, 49, 98, 101, 97, 101, 100]) (keccakF (absorb_i_loop 0 0 (pad [53, 97, 97, 101, 98, 54, 48, 53, 51, 102, 51, 101, 57, 52, 99, 57,
     98, 57, 97, 48, 57, 102, 51, 51, 54, 54, 57, 52, 51, 53, 101, 55,
     101, 102, 49, 98, 101, 97, 101, 100]) (replicate 25 0)))"
    by (subst absorb_loop.simps) (simp add: len rate_def)
  also have "\<dots> = keccakF (absorb_i_loop 0 0 (pad [53, 97, 97, 101, 98, 54, 48, 53, 51, 102, 51, 101, 57, 52, 99, 57,
     98, 57, 97, 48, 57, 102, 51, 51, 54, 54, 57, 52, 51, 53, 101, 55,
     101, 102, 49, 98, 101, 97, 101, 100]) (replicate 25 0))"
    by (subst absorb_loop.simps) (simp add: len)
  finally show ?thesis
    by (simp only: keccak256_def pad_eip55 absorb_block_eip55 keccakF_eip55 squeeze_eip55)
qed

section \<open>The canonical checksum vector\<close>

lemma bytes_hex_eip55: "bytes_hex eip55_bytes = ''5aaeb6053f3e94c9b9a09f33669435e7ef1beaed''"
  by code_simp

lemma text_encode_eip55:
  "text_encode ''5aaeb6053f3e94c9b9a09f33669435e7ef1beaed'' =
    [53, 97, 97, 101, 98, 54, 48, 53, 51, 102, 51, 101, 57, 52, 99, 57,
     98, 57, 97, 48, 57, 102, 51, 51, 54, 54, 57, 52, 51, 53, 101, 55,
     101, 102, 49, 98, 101, 97, 101, 100]"
  by (simp add: text_encode_def)

lemma bytes_hex_eip55_digest:
  "bytes_hex [211, 133, 101, 12, 232, 253, 198, 219, 126, 227, 160, 145, 211, 72, 20, 219,
     196, 206, 24, 33, 159, 250, 229, 33, 130, 239, 255, 64, 52, 215, 7, 229] =
    ''d385650ce8fdc6db7ee3a091d34814dbc4ce18219ffae52182efff4034d707e5''"
  by code_simp

lemma checksum_loop_eip55:
  "checksum_loop 0 ''5aaeb6053f3e94c9b9a09f33669435e7ef1beaed''
     ''d385650ce8fdc6db7ee3a091d34814dbc4ce18219ffae52182efff4034d707e5'' ''0x'' =
   Inr ''0x5aAeb6053F3E94C9b9A09f33669435E7Ef1BeAed''"
  by code_simp

lemma toChecksumAddress_eip55:
  "toChecksumAddress eip55_bytes = Inr ''0x5aAeb6053F3E94C9b9A09f33669435E7Ef1BeAed''"
  by (simp only: toChecksumAddress_def Let_def bytes_hex_eip55 text_encode_eip55
        keccak256_eip55 bytes_hex_eip55_digest checksum_loop_eip55)

text \<open>
  C2 (amended).  For every 20-byte input, the checksum-casing function lower-case
  hex-encodes the bytes to 40 characters, computes the Keccak-256 digest of the bytes of
  that 40-character string, and returns the prefix \<open>0x\<close> followed by the 40 characters,
  of which exactly those whose digest nibble (digest byte \<open>i div 2\<close>, high half for even
  \<open>i\<close>, low half for odd \<open>i\<close>) is at least 8 are upper-cased.  The 20 bytes with
  lower-case encoding \<open>5aaeb6053f3e94c9b9a09f33669435e7ef1beaed\<close> give
  \<open>0x5aAeb6053F3E94C9b9A09f33669435E7Ef1BeAed\<close>.
\<close>

theorem toChecksumAddress_casing:
  "(length bytes = 20 \<longrightarrow>
      length (bytes_hex bytes) = 40
      \<and> set (bytes_hex bytes) \<subseteq> set ''0123456789abcdef''
      \<and> toChecksumAddress bytes =
          Inr (''0x'' @ spec_casing (bytes_hex bytes)
                          (keccak256 (text_encode (bytes_hex bytes)))))
   \<and> bytes_hex eip55_bytes = ''5aaeb6053f3e94c9b9a09f33669435e7ef1beaed''
   \<and> toChecksumAddress eip55_bytes = Inr ''0x5aAeb6053F3E94C9b9A09f33669435E7Ef1BeAed''"
  using toChecksumAddress_eq [of bytes] set_bytes_hex [of bytes] length_bytes_hex [of bytes]
    bytes_hex_eip55 toChecksumAddress_eip55
  by simp

theorem toChecksumAddress_casing_witness:
  "length eip55_bytes = 20
   \<and> length (bytes_hex eip55_bytes) = 40
   \<and> toChecksumAddress eip55_bytes =
       Inr (''0x'' @ spec_casing (bytes_hex eip55_bytes)
                       (keccak256 (text_encode (bytes_hex eip55_bytes))))"
proof -
  have "length eip55_bytes = 20" by (simp add: eip55_bytes_def)
  with toChecksumAddress_casing [of eip55_bytes] show ?thesis by blast
qed

text \<open>
  C2 as stated fails at its own vector: the result is not the quoted string
  \<open>5aAeb6053F3e94C9b9A09f33669435E7Ef1BeAeD\<close>, with or without the prefix
  \<open>0x\<close> (the quoted string differs from the 40 cased characters at positions 11 and 39, counted from 0).
\<close>

theorem toChecksumAddress_eip55_counterexample:
  "bytes_hex eip55_bytes = ''5aaeb6053f3e94c9b9a09f33669435e7ef1beaed''
   \<and> toChecksumAddress eip55_bytes \<noteq> Inr ''5aAeb6053F3e94C9b9A09f33669435E7Ef1BeAeD''
   \<and> toChecksumAddress eip55_bytes \<noteq> Inr ''0x5aAeb6053F3e94C9b9A09f33669435E7Ef1BeAeD''"
  by (simp only: bytes_hex_eip55 toChecksumAddress_eip55) simp

end
